theory Spec2Isabelle
  imports Main "HOL-Library.Word"
begin

unbundle bit_operations_syntax

section \<open>Values\<close>

text \<open>
  The cipher works on JavaScript arrays of numbers that hold bytes. A byte is an 8-bit
  word. An array read outside the array gives \<open>undefined\<close> and does not raise, so a
  value read from an array is a byte or \<open>undefined\<close>: \<open>None\<close> stands for
  \<open>undefined\<close>. The bitwise operators first convert their operands to 32-bit integers
  (\<open>undefined\<close> becomes 0).
\<close>

type_synonym byte = "8 word"
type_synonym jsval = "byte option"
type_synonym state = "jsval list list"

datatype error = InvalidPadding | TypeError

definition bytes_of :: "byte list \<Rightarrow> jsval list" where
  "bytes_of bs = map Some bs"

definition ToInt32 :: "jsval \<Rightarrow> 32 word" where
  "ToInt32 v = (case v of None \<Rightarrow> 0 | Some b \<Rightarrow> ucast b)"

text \<open>The number a bitwise operator returns, stored as an array cell. On byte operands
  the result of \<open>^\<close> is below 256, so the cell keeps all of it.\<close>

definition js_num :: "32 word \<Rightarrow> jsval" where
  "js_num w = Some (ucast w)"

definition js_xor :: "jsval \<Rightarrow> jsval \<Rightarrow> jsval" where
  "js_xor a b = js_num (ToInt32 a XOR ToInt32 b)"

text \<open>\<open>array[i]\<close>: \<open>undefined\<close> outside the array.\<close>

definition js_nth :: "jsval list \<Rightarrow> nat \<Rightarrow> jsval" where
  "js_nth xs i = (if i < length xs then xs ! i else None)"

text \<open>\<open>array.slice(i, j)\<close> for \<open>0 \<le> i \<le> j\<close>.\<close>

definition slice :: "'a list \<Rightarrow> nat \<Rightarrow> nat \<Rightarrow> 'a list" where
  "slice xs i j = take (j - i) (drop i xs)"

section \<open>Constants\<close>

text \<open>The file constants.js, which declares S_BOX, INVERSE_S_BOX, ROUND_CONSTANTS,
  KEY_SIZE_WORDS, NUMBER_OF_ROUNDS and BLOCK_SIZE, is not among the sources. Each of them
  is taken from the specification: AES-256 on 16-byte blocks, with the standard tables of
  FIPS-197.\<close>

text \<open>Modelled from the spec: BLOCK_SIZE of constants.js, a block is exactly 16 bytes.\<close>

definition BLOCK_SIZE :: nat where
  "BLOCK_SIZE = 16"

text \<open>Modelled from the spec: KEY_SIZE_WORDS of constants.js, the first 8 words of the
  schedule are the 32 bytes of the key.\<close>

definition KEY_SIZE_WORDS :: nat where
  "KEY_SIZE_WORDS = 8"

text \<open>Modelled from the spec: NUMBER_OF_ROUNDS of constants.js, the 14 rounds that use
  round keys 1 to 14.\<close>

definition NUMBER_OF_ROUNDS :: nat where
  "NUMBER_OF_ROUNDS = 14"

text \<open>Modelled from the spec: ROUND_CONSTANTS of constants.js, round constants indexed
  1..14, successive doublings of 0x01 in GF(2^8); index 0 is a placeholder that the key
  schedule never reads.\<close>

definition ROUND_CONSTANTS :: "byte list" where
  "ROUND_CONSTANTS =
    [0x00, 0x01, 0x02, 0x04, 0x08, 0x10, 0x20, 0x40, 0x80, 0x1b, 0x36, 0x6c, 0xd8, 0xab, 0x4d]"

text \<open>Modelled from the spec: S_BOX of constants.js, the standard substitution table
  of 256 entries.\<close>

definition S_BOX :: "byte list" where
  "S_BOX =
    [0x63, 0x7c, 0x77, 0x7b, 0xf2, 0x6b, 0x6f, 0xc5, 0x30, 0x01, 0x67, 0x2b, 0xfe, 0xd7, 0xab, 0x76,
     0xca, 0x82, 0xc9, 0x7d, 0xfa, 0x59, 0x47, 0xf0, 0xad, 0xd4, 0xa2, 0xaf, 0x9c, 0xa4, 0x72, 0xc0,
     0xb7, 0xfd, 0x93, 0x26, 0x36, 0x3f, 0xf7, 0xcc, 0x34, 0xa5, 0xe5, 0xf1, 0x71, 0xd8, 0x31, 0x15,
     0x04, 0xc7, 0x23, 0xc3, 0x18, 0x96, 0x05, 0x9a, 0x07, 0x12, 0x80, 0xe2, 0xeb, 0x27, 0xb2, 0x75,
     0x09, 0x83, 0x2c, 0x1a, 0x1b, 0x6e, 0x5a, 0xa0, 0x52, 0x3b, 0xd6, 0xb3, 0x29, 0xe3, 0x2f, 0x84,
     0x53, 0xd1, 0x00, 0xed, 0x20, 0xfc, 0xb1, 0x5b, 0x6a, 0xcb, 0xbe, 0x39, 0x4a, 0x4c, 0x58, 0xcf,
     0xd0, 0xef, 0xaa, 0xfb, 0x43, 0x4d, 0x33, 0x85, 0x45, 0xf9, 0x02, 0x7f, 0x50, 0x3c, 0x9f, 0xa8,
     0x51, 0xa3, 0x40, 0x8f, 0x92, 0x9d, 0x38, 0xf5, 0xbc, 0xb6, 0xda, 0x21, 0x10, 0xff, 0xf3, 0xd2,
     0xcd, 0x0c, 0x13, 0xec, 0x5f, 0x97, 0x44, 0x17, 0xc4, 0xa7, 0x7e, 0x3d, 0x64, 0x5d, 0x19, 0x73,
     0x60, 0x81, 0x4f, 0xdc, 0x22, 0x2a, 0x90, 0x88, 0x46, 0xee, 0xb8, 0x14, 0xde, 0x5e, 0x0b, 0xdb,
     0xe0, 0x32, 0x3a, 0x0a, 0x49, 0x06, 0x24, 0x5c, 0xc2, 0xd3, 0xac, 0x62, 0x91, 0x95, 0xe4, 0x79,
     0xe7, 0xc8, 0x37, 0x6d, 0x8d, 0xd5, 0x4e, 0xa9, 0x6c, 0x56, 0xf4, 0xea, 0x65, 0x7a, 0xae, 0x08,
     0xba, 0x78, 0x25, 0x2e, 0x1c, 0xa6, 0xb4, 0xc6, 0xe8, 0xdd, 0x74, 0x1f, 0x4b, 0xbd, 0x8b, 0x8a,
     0x70, 0x3e, 0xb5, 0x66, 0x48, 0x03, 0xf6, 0x0e, 0x61, 0x35, 0x57, 0xb9, 0x86, 0xc1, 0x1d, 0x9e,
     0xe1, 0xf8, 0x98, 0x11, 0x69, 0xd9, 0x8e, 0x94, 0x9b, 0x1e, 0x87, 0xe9, 0xce, 0x55, 0x28, 0xdf,
     0x8c, 0xa1, 0x89, 0x0d, 0xbf, 0xe6, 0x42, 0x68, 0x41, 0x99, 0x2d, 0x0f, 0xb0, 0x54, 0xbb, 0x16]"

text \<open>Modelled from the spec: INVERSE_S_BOX of constants.js, the inverse of the standard
  substitution table.\<close>

definition INVERSE_S_BOX :: "byte list" where
  "INVERSE_S_BOX =
    [0x52, 0x09, 0x6a, 0xd5, 0x30, 0x36, 0xa5, 0x38, 0xbf, 0x40, 0xa3, 0x9e, 0x81, 0xf3, 0xd7, 0xfb,
     0x7c, 0xe3, 0x39, 0x82, 0x9b, 0x2f, 0xff, 0x87, 0x34, 0x8e, 0x43, 0x44, 0xc4, 0xde, 0xe9, 0xcb,
     0x54, 0x7b, 0x94, 0x32, 0xa6, 0xc2, 0x23, 0x3d, 0xee, 0x4c, 0x95, 0x0b, 0x42, 0xfa, 0xc3, 0x4e,
     0x08, 0x2e, 0xa1, 0x66, 0x28, 0xd9, 0x24, 0xb2, 0x76, 0x5b, 0xa2, 0x49, 0x6d, 0x8b, 0xd1, 0x25,
     0x72, 0xf8, 0xf6, 0x64, 0x86, 0x68, 0x98, 0x16, 0xd4, 0xa4, 0x5c, 0xcc, 0x5d, 0x65, 0xb6, 0x92,
     0x6c, 0x70, 0x48, 0x50, 0xfd, 0xed, 0xb9, 0xda, 0x5e, 0x15, 0x46, 0x57, 0xa7, 0x8d, 0x9d, 0x84,
     0x90, 0xd8, 0xab, 0x00, 0x8c, 0xbc, 0xd3, 0x0a, 0xf7, 0xe4, 0x58, 0x05, 0xb8, 0xb3, 0x45, 0x06,
     0xd0, 0x2c, 0x1e, 0x8f, 0xca, 0x3f, 0x0f, 0x02, 0xc1, 0xaf, 0xbd, 0x03, 0x01, 0x13, 0x8a, 0x6b,
     0x3a, 0x91, 0x11, 0x41, 0x4f, 0x67, 0xdc, 0xea, 0x97, 0xf2, 0xcf, 0xce, 0xf0, 0xb4, 0xe6, 0x73,
     0x96, 0xac, 0x74, 0x22, 0xe7, 0xad, 0x35, 0x85, 0xe2, 0xf9, 0x37, 0xe8, 0x1c, 0x75, 0xdf, 0x6e,
     0x47, 0xf1, 0x1a, 0x71, 0x1d, 0x29, 0xc5, 0x89, 0x6f, 0xb7, 0x62, 0x0e, 0xaa, 0x18, 0xbe, 0x1b,
     0xfc, 0x56, 0x3e, 0x4b, 0xc6, 0xd2, 0x79, 0x20, 0x9a, 0xdb, 0xc0, 0xfe, 0x78, 0xcd, 0x5a, 0xf4,
     0x1f, 0xdd, 0xa8, 0x33, 0x88, 0x07, 0xc7, 0x31, 0xb1, 0x12, 0x10, 0x59, 0x27, 0x80, 0xec, 0x5f,
     0x60, 0x51, 0x7f, 0xa9, 0x19, 0xb5, 0x4a, 0x0d, 0x2d, 0xe5, 0x7a, 0x9f, 0x93, 0xc9, 0x9c, 0xef,
     0xa0, 0xe0, 0x3b, 0x4d, 0xae, 0x2a, 0xf5, 0xb0, 0xc8, 0xeb, 0xbb, 0x3c, 0x83, 0x53, 0x99, 0x61,
     0x17, 0x2b, 0x04, 0x7e, 0xba, 0x77, 0xd6, 0x26, 0xe1, 0x69, 0x14, 0x63, 0x55, 0x21, 0x0c, 0x7d]"

text \<open>\<open>TABLE[v]\<close>: a table read at a byte, \<open>undefined\<close> at \<open>undefined\<close>.\<close>

definition table_at :: "byte list \<Rightarrow> jsval \<Rightarrow> jsval" where
  "table_at t v = (case v of None \<Rightarrow> None | Some b \<Rightarrow> js_nth (bytes_of t) (unat b))"

section \<open>Galois field arithmetic (galoisField.js)\<close>

definition multiplyByTwo :: "jsval \<Rightarrow> jsval" where
  "multiplyByTwo byte =
     (let result = push_bit 1 (ToInt32 byte);
          result = (if ToInt32 byte AND 0x80 \<noteq> 0 then result XOR 0x1b else result)
      in js_num (result AND 0xff))"

definition multiplyByThree :: "jsval \<Rightarrow> jsval" where
  "multiplyByThree byte = js_xor (multiplyByTwo byte) byte"

definition multiplyByNine :: "jsval \<Rightarrow> jsval" where
  "multiplyByNine byte = js_xor (multiplyByTwo (multiplyByTwo (multiplyByTwo byte))) byte"

definition multiplyByEleven :: "jsval \<Rightarrow> jsval" where
  "multiplyByEleven byte =
     (let times2 = multiplyByTwo byte;
          times8 = multiplyByTwo (multiplyByTwo times2)
      in js_xor (js_xor times8 times2) byte)"

definition multiplyByThirteen :: "jsval \<Rightarrow> jsval" where
  "multiplyByThirteen byte =
     (let times2 = multiplyByTwo byte;
          times4 = multiplyByTwo times2;
          times8 = multiplyByTwo times4
      in js_xor (js_xor times8 times4) byte)"

definition multiplyByFourteen :: "jsval \<Rightarrow> jsval" where
  "multiplyByFourteen byte =
     (let times2 = multiplyByTwo byte;
          times4 = multiplyByTwo times2;
          times8 = multiplyByTwo times4
      in js_xor (js_xor times8 times4) times2)"

section \<open>State matrices (utils.js)\<close>

text \<open>A state is an array of 4 rows of 4 cells. Every state of the program is allocated
  4 by 4 (by \<open>bytesToStateMatrix\<close> or by the key schedule) and every transformation
  copies its argument and assigns all 16 cells, which \<open>matrix4\<close> writes down.\<close>

definition matrix4 :: "(nat \<Rightarrow> nat \<Rightarrow> jsval) \<Rightarrow> state" where
  "matrix4 f = map (\<lambda>row. map (\<lambda>col. f row col) [0, 1, 2, 3]) [0, 1, 2, 3]"

definition cell :: "state \<Rightarrow> nat \<Rightarrow> nat \<Rightarrow> jsval" where
  "cell s row col = s ! row ! col"

definition bytesToStateMatrix :: "jsval list \<Rightarrow> state" where
  "bytesToStateMatrix bytes = matrix4 (\<lambda>row col. js_nth bytes (col * 4 + row))"

definition stateMatrixToBytes :: "state \<Rightarrow> jsval list" where
  "stateMatrixToBytes s =
     concat (map (\<lambda>col. map (\<lambda>row. cell s row col) [0, 1, 2, 3]) [0, 1, 2, 3])"

definition copyStateMatrix :: "state \<Rightarrow> state" where
  "copyStateMatrix s = map (\<lambda>row. row) s"

section \<open>Round transformations (transformations.js)\<close>

definition substituteBytes :: "state \<Rightarrow> state" where
  "substituteBytes s = matrix4 (\<lambda>row col. table_at S_BOX (cell s row col))"

definition inverseSubstituteBytes :: "state \<Rightarrow> state" where
  "inverseSubstituteBytes s = matrix4 (\<lambda>row col. table_at INVERSE_S_BOX (cell s row col))"

definition shiftRows :: "state \<Rightarrow> state" where
  "shiftRows s =
     [s ! 0,
      [cell s 1 1, cell s 1 2, cell s 1 3, cell s 1 0],
      [cell s 2 2, cell s 2 3, cell s 2 0, cell s 2 1],
      [cell s 3 3, cell s 3 0, cell s 3 1, cell s 3 2]]"

definition inverseShiftRows :: "state \<Rightarrow> state" where
  "inverseShiftRows s =
     [s ! 0,
      [cell s 1 3, cell s 1 0, cell s 1 1, cell s 1 2],
      [cell s 2 2, cell s 2 3, cell s 2 0, cell s 2 1],
      [cell s 3 1, cell s 3 2, cell s 3 3, cell s 3 0]]"

definition mixColumn :: "state \<Rightarrow> nat \<Rightarrow> nat \<Rightarrow> jsval" where
  "mixColumn s row col =
     (let s0 = cell s 0 col; s1 = cell s 1 col; s2 = cell s 2 col; s3 = cell s 3 col
      in if row = 0 then js_xor (js_xor (js_xor (multiplyByTwo s0) (multiplyByThree s1)) s2) s3
         else if row = 1 then js_xor (js_xor (js_xor s0 (multiplyByTwo s1)) (multiplyByThree s2)) s3
         else if row = 2 then js_xor (js_xor (js_xor s0 s1) (multiplyByTwo s2)) (multiplyByThree s3)
         else js_xor (js_xor (js_xor (multiplyByThree s0) s1) s2) (multiplyByTwo s3))"

definition mixColumns :: "state \<Rightarrow> state" where
  "mixColumns s = matrix4 (mixColumn s)"

definition inverseMixColumn :: "state \<Rightarrow> nat \<Rightarrow> nat \<Rightarrow> jsval" where
  "inverseMixColumn s row col =
     (let s0 = cell s 0 col; s1 = cell s 1 col; s2 = cell s 2 col; s3 = cell s 3 col
      in if row = 0 then
           js_xor (js_xor (js_xor (multiplyByFourteen s0) (multiplyByEleven s1))
             (multiplyByThirteen s2)) (multiplyByNine s3)
         else if row = 1 then
           js_xor (js_xor (js_xor (multiplyByNine s0) (multiplyByFourteen s1))
             (multiplyByEleven s2)) (multiplyByThirteen s3)
         else if row = 2 then
           js_xor (js_xor (js_xor (multiplyByThirteen s0) (multiplyByNine s1))
             (multiplyByFourteen s2)) (multiplyByEleven s3)
         else
           js_xor (js_xor (js_xor (multiplyByEleven s0) (multiplyByThirteen s1))
             (multiplyByNine s2)) (multiplyByFourteen s3))"

definition inverseMixColumns :: "state \<Rightarrow> state" where
  "inverseMixColumns s = matrix4 (inverseMixColumn s)"

definition addRoundKey :: "state \<Rightarrow> state \<Rightarrow> state" where
  "addRoundKey s roundKey = matrix4 (\<lambda>row col. js_xor (cell s row col) (cell roundKey row col))"

section \<open>Hex conversion and padding (utils.js)\<close>

definition isHexDigit :: "char \<Rightarrow> bool" where
  "isHexDigit c = (let n = (of_char c :: nat)
     in (48 \<le> n \<and> n \<le> 57) \<or> (97 \<le> n \<and> n \<le> 102) \<or> (65 \<le> n \<and> n \<le> 70))"

definition hexDigitValue :: "char \<Rightarrow> nat" where
  "hexDigitValue c = (let n = (of_char c :: nat)
     in if n \<le> 57 then n - 48 else if 97 \<le> n then n - 87 else n - 55)"

text \<open>The loop of \<open>hexToBytes\<close> takes two characters at a time; \<open>substr(i, 2)\<close> at
  the last index of an odd-length string is a single character, which \<open>parseInt\<close>
  reads as a one-digit number.\<close>

fun parsePairs :: "string \<Rightarrow> jsval list" where
  "parsePairs [] = []"
| "parsePairs [c] = [Some (of_nat (hexDigitValue c))]"
| "parsePairs (c # d # rest) =
     Some (of_nat (hexDigitValue c * 16 + hexDigitValue d)) # parsePairs rest"

definition hexToBytes :: "string \<Rightarrow> jsval list" where
  "hexToBytes hexString = (let cleanHex = filter isHexDigit hexString in parsePairs cleanHex)"

function padLoop :: "nat \<Rightarrow> nat \<Rightarrow> jsval list \<Rightarrow> jsval list" where
  "padLoop i paddingLength paddedData =
     (if i < paddingLength
      then padLoop (i + 1) paddingLength (paddedData @ [Some (of_nat paddingLength)])
      else paddedData)"
  by pat_completeness auto
termination
  by (relation "measure (\<lambda>(i, paddingLength, paddedData). paddingLength - i)") auto

definition padData :: "jsval list \<Rightarrow> jsval list" where
  "padData data =
     (let paddingLength = BLOCK_SIZE - (length data mod BLOCK_SIZE)
      in padLoop 0 paddingLength data)"

text \<open>\<open>data[k]\<close> at an index that may be negative: \<open>undefined\<close> outside the array.\<close>

definition js_at :: "jsval list \<Rightarrow> int \<Rightarrow> jsval" where
  "js_at xs k = (if 0 \<le> k \<and> k < int (length xs) then xs ! nat k else None)"

text \<open>The verification loop of \<open>unpadData\<close>, for \<open>i\<close> from 1 to \<open>paddingLength\<close>;
  \<open>True\<close> when it runs to its end and \<open>False\<close> when it throws.\<close>

function unpadLoop :: "jsval list \<Rightarrow> nat \<Rightarrow> byte \<Rightarrow> bool" where
  "unpadLoop data i paddingLength =
     (if i \<le> unat paddingLength
      then (if js_at data (int (length data) - int i) \<noteq> Some paddingLength then False
            else unpadLoop data (i + 1) paddingLength)
      else True)"
  by pat_completeness auto
termination
  by (relation "measure (\<lambda>(data, i, paddingLength). Suc (unat paddingLength) - i)") auto

text \<open>When the last element is \<open>undefined\<close>, both comparisons of the validation are
  false, the loop test \<open>1 <= undefined\<close> is false, and \<open>slice(0, NaN)\<close> is empty.
  When the loop has not thrown, \<open>paddingLength\<close> is at most the length, so the end of
  the slice is not negative.\<close>

definition unpadData :: "jsval list \<Rightarrow> error + jsval list" where
  "unpadData data =
     (if length data = 0 then Inr data
      else case js_at data (int (length data) - 1) of
             None \<Rightarrow> Inr []
           | Some paddingLength \<Rightarrow>
               if unat paddingLength > BLOCK_SIZE \<or> paddingLength = 0 then Inl InvalidPadding
               else if \<not> unpadLoop data 1 paddingLength then Inl InvalidPadding
               else Inr (slice data 0 (length data - unat paddingLength)))"

declare padLoop.simps [simp del]
declare unpadLoop.simps [simp del]

section \<open>Key expansion (keyExpansion.js)\<close>

definition rotateWord :: "jsval list \<Rightarrow> jsval list" where
  "rotateWord word = [js_nth word 1, js_nth word 2, js_nth word 3, js_nth word 0]"

definition substituteWord :: "jsval list \<Rightarrow> jsval list" where
  "substituteWord word = map (table_at S_BOX) word"

definition xorWords :: "jsval list \<Rightarrow> jsval list \<Rightarrow> jsval list" where
  "xorWords word1 word2 =
     map (\<lambda>index. js_xor (js_nth word1 index) (js_nth word2 index)) [0..<length word1]"

text \<open>The first loop: word \<open>i\<close> is \<open>key[4i .. 4i+3]\<close>, for \<open>i\<close> below KEY_SIZE_WORDS. The
  key is read by index with no check of its length.\<close>

definition keyWords :: "jsval list \<Rightarrow> jsval list list" where
  "keyWords key =
     map (\<lambda>i. [js_nth key (4 * i), js_nth key (4 * i + 1),
               js_nth key (4 * i + 2), js_nth key (4 * i + 3)]) [0..<KEY_SIZE_WORDS]"

text \<open>The body of the second loop: the word stored at index \<open>i\<close>, from the words before
  it. \<open>temp[0] ^= rconValue\<close> changes the first byte of the 4-byte \<open>temp\<close> only.\<close>

definition nextWord :: "nat \<Rightarrow> jsval list list \<Rightarrow> jsval list" where
  "nextWord i words =
     (let temp = words ! (i - 1);
          temp =
            (if i mod KEY_SIZE_WORDS = 0 then
               (let temp = rotateWord temp;
                    temp = substituteWord temp;
                    rconValue = js_nth (bytes_of ROUND_CONSTANTS) (i div KEY_SIZE_WORDS)
                in temp[0 := js_xor (js_nth temp 0) rconValue])
             else if i mod KEY_SIZE_WORDS = 4 then substituteWord temp
             else temp)
      in xorWords temp (words ! (i - KEY_SIZE_WORDS)))"

text \<open>The second loop. It is entered with \<open>i\<close> words in \<open>words\<close>, so the assignment
  \<open>words[i] = ...\<close> appends.\<close>

function expandLoop :: "nat \<Rightarrow> nat \<Rightarrow> jsval list list \<Rightarrow> jsval list list" where
  "expandLoop i totalWords words =
     (if i < totalWords then expandLoop (i + 1) totalWords (words @ [nextWord i words])
      else words)"
  by pat_completeness auto
termination
  by (relation "measure (\<lambda>(i, totalWords, words). totalWords - i)") auto

declare expandLoop.simps [simp del]

definition expandWords :: "jsval list \<Rightarrow> jsval list list" where
  "expandWords key =
     (let totalWords = 4 * (NUMBER_OF_ROUNDS + 1)
      in expandLoop KEY_SIZE_WORDS totalWords (keyWords key))"

text \<open>One round key: word \<open>round * 4 + wordIndex\<close> fills column \<open>wordIndex\<close>.\<close>

definition roundKeyOf :: "jsval list list \<Rightarrow> nat \<Rightarrow> state" where
  "roundKeyOf words round =
     matrix4 (\<lambda>byteIndex wordIndex. js_nth (words ! (round * 4 + wordIndex)) byteIndex)"

text \<open>\<open>expandKey(key).roundKeys\<close>. The other field of the result, \<open>expansionDetails\<close>,
  is a log of copies of the intermediate words for display; building it reads nothing
  but those words and cannot fail, and it is left out.\<close>

definition expandKey :: "jsval list \<Rightarrow> state list" where
  "expandKey key = map (roundKeyOf (expandWords key)) [0..<NUMBER_OF_ROUNDS + 1]"

section \<open>Formatting for display (utils.js)\<close>

definition hexDigit :: "nat \<Rightarrow> char" where
  "hexDigit n = ''0123456789abcdef'' ! n"

text \<open>\<open>byte.toString(16).padStart(2, '0')\<close> on a byte.\<close>

definition byteToHex :: "byte \<Rightarrow> string" where
  "byteToHex b = [hexDigit (unat b div 16), hexDigit (unat b mod 16)]"

fun joinStrings :: "string \<Rightarrow> string list \<Rightarrow> string" where
  "joinStrings sep [] = []"
| "joinStrings sep [x] = x"
| "joinStrings sep (x # y # rest) = x @ sep @ joinStrings sep (y # rest)"

definition bind_err :: "error + 'a \<Rightarrow> ('a \<Rightarrow> error + 'b) \<Rightarrow> error + 'b" where
  "bind_err m f = (case m of Inl e \<Rightarrow> Inl e | Inr x \<Rightarrow> f x)"

text \<open>\<open>undefined.toString\<close> throws a TypeError.\<close>

fun formatCells :: "jsval list \<Rightarrow> error + string list" where
  "formatCells [] = Inr []"
| "formatCells (None # rest) = Inl TypeError"
| "formatCells (Some b # rest) =
     bind_err (formatCells rest) (\<lambda>cells. Inr (byteToHex b # cells))"

fun formatRows :: "state \<Rightarrow> error + string list" where
  "formatRows [] = Inr []"
| "formatRows (row # rest) =
     bind_err (formatCells row) (\<lambda>cells.
     bind_err (formatRows rest) (\<lambda>rows. Inr (joinStrings '' '' cells # rows)))"

definition formatStateMatrix :: "state \<Rightarrow> error + string" where
  "formatStateMatrix s = bind_err (formatRows s) (\<lambda>rows. Inr (joinStrings [CHR 0x0A] rows))"

section \<open>Block encryption (encryption.js) and decryption (decryption.js)\<close>

record roundDetail =
  rd_round :: nat
  rd_step :: string
  rd_state :: string
  rd_stateMatrix :: state
  rd_roundKey :: "string option"

text \<open>The statement \<open>if (trackRounds) roundDetails.push({round, step, state:
  formatStateMatrix(state), stateMatrix: copyStateMatrix(state), roundKey: ...})\<close>, which
  follows every transformation; the field \<open>roundKey\<close> is there for the AddRoundKey steps.\<close>

definition pushDetail ::
  "bool \<Rightarrow> roundDetail list \<Rightarrow> nat \<Rightarrow> string \<Rightarrow> state \<Rightarrow> state option
     \<Rightarrow> error + roundDetail list" where
  "pushDetail trackRounds roundDetails r stepName s rk =
     (if trackRounds then
        bind_err (formatStateMatrix s) (\<lambda>txt.
        bind_err (case rk of None \<Rightarrow> Inr None
                  | Some k \<Rightarrow> bind_err (formatStateMatrix k) (\<lambda>ktxt. Inr (Some ktxt))) (\<lambda>ktxt.
        Inr (roundDetails @
          [\<lparr>rd_round = r, rd_step = stepName, rd_state = txt,
            rd_stateMatrix = copyStateMatrix s, rd_roundKey = ktxt\<rparr>])))
      else Inr roundDetails)"

text \<open>The main rounds of \<open>encryptBlock\<close>, \<open>round\<close> from 1 to NUMBER_OF_ROUNDS - 1.\<close>

function encryptRounds ::
  "state list \<Rightarrow> bool \<Rightarrow> nat \<Rightarrow> state \<Rightarrow> roundDetail list
     \<Rightarrow> error + state \<times> roundDetail list" where
  "encryptRounds roundKeys trackRounds r s d =
     (if r < NUMBER_OF_ROUNDS then
        bind_err (pushDetail trackRounds d r ''Start of Round'' s None) (\<lambda>d1.
        bind_err (pushDetail trackRounds d1 r ''After SubBytes'' (substituteBytes s) None) (\<lambda>d2.
        bind_err (pushDetail trackRounds d2 r ''After ShiftRows''
                    (shiftRows (substituteBytes s)) None) (\<lambda>d3.
        bind_err (pushDetail trackRounds d3 r ''After MixColumns''
                    (mixColumns (shiftRows (substituteBytes s))) None) (\<lambda>d4.
        bind_err (pushDetail trackRounds d4 r ''After AddRoundKey''
                    (addRoundKey (mixColumns (shiftRows (substituteBytes s))) (roundKeys ! r))
                    (Some (roundKeys ! r))) (\<lambda>d5.
        encryptRounds roundKeys trackRounds (r + 1)
          (addRoundKey (mixColumns (shiftRows (substituteBytes s))) (roundKeys ! r)) d5)))))
      else Inr (s, d))"
  by pat_completeness auto
termination
  by (relation "measure (\<lambda>(roundKeys, trackRounds, r, s, d). NUMBER_OF_ROUNDS - r)") auto

declare encryptRounds.simps [simp del]

record encryptBlockResult =
  encryptedBlock :: "jsval list"
  encryptRoundDetails :: "roundDetail list"

definition encryptBlock :: "jsval list \<Rightarrow> state list \<Rightarrow> bool \<Rightarrow> error + encryptBlockResult" where
  "encryptBlock block roundKeys trackRounds =
     (let s0 = bytesToStateMatrix block in
      bind_err (pushDetail trackRounds [] 0 ''Initial State'' s0 None) (\<lambda>d.
      let s1 = addRoundKey s0 (roundKeys ! 0) in
      bind_err (pushDetail trackRounds d 0 ''After AddRoundKey'' s1 (Some (roundKeys ! 0))) (\<lambda>d.
      bind_err (encryptRounds roundKeys trackRounds 1 s1 d) (\<lambda>(s2, d).
      let finalRound = NUMBER_OF_ROUNDS in
      bind_err (pushDetail trackRounds d finalRound ''Start of Final Round'' s2 None) (\<lambda>d.
      let s3 = substituteBytes s2 in
      bind_err (pushDetail trackRounds d finalRound ''After SubBytes'' s3 None) (\<lambda>d.
      let s4 = shiftRows s3 in
      bind_err (pushDetail trackRounds d finalRound ''After ShiftRows'' s4 None) (\<lambda>d.
      let s5 = addRoundKey s4 (roundKeys ! finalRound) in
      bind_err (pushDetail trackRounds d finalRound ''After AddRoundKey (Final)'' s5
                  (Some (roundKeys ! finalRound))) (\<lambda>d.
      Inr \<lparr>encryptedBlock = stateMatrixToBytes s5, encryptRoundDetails = d\<rparr>))))))))"

text \<open>The main rounds of \<open>decryptBlock\<close>, \<open>round\<close> from NUMBER_OF_ROUNDS - 1 down to 1.\<close>

function decryptRounds ::
  "state list \<Rightarrow> bool \<Rightarrow> nat \<Rightarrow> state \<Rightarrow> roundDetail list
     \<Rightarrow> error + state \<times> roundDetail list" where
  "decryptRounds roundKeys trackRounds r s d =
     (if r \<ge> 1 then
        bind_err (pushDetail trackRounds d r ''Start of Round'' s None) (\<lambda>d1.
        bind_err (pushDetail trackRounds d1 r ''After InverseShiftRows''
                    (inverseShiftRows s) None) (\<lambda>d2.
        bind_err (pushDetail trackRounds d2 r ''After InverseSubBytes''
                    (inverseSubstituteBytes (inverseShiftRows s)) None) (\<lambda>d3.
        bind_err (pushDetail trackRounds d3 r ''After AddRoundKey''
                    (addRoundKey (inverseSubstituteBytes (inverseShiftRows s)) (roundKeys ! r))
                    (Some (roundKeys ! r))) (\<lambda>d4.
        bind_err (pushDetail trackRounds d4 r ''After InverseMixColumns''
                    (inverseMixColumns
                      (addRoundKey (inverseSubstituteBytes (inverseShiftRows s)) (roundKeys ! r)))
                    None) (\<lambda>d5.
        decryptRounds roundKeys trackRounds (r - 1)
          (inverseMixColumns
            (addRoundKey (inverseSubstituteBytes (inverseShiftRows s)) (roundKeys ! r))) d5)))))
      else Inr (s, d))"
  by pat_completeness auto
termination
  by (relation "measure (\<lambda>(roundKeys, trackRounds, r, s, d). r)") auto

declare decryptRounds.simps [simp del]

record decryptBlockResult =
  decryptedBlock :: "jsval list"
  decryptRoundDetails :: "roundDetail list"

definition decryptBlock :: "jsval list \<Rightarrow> state list \<Rightarrow> bool \<Rightarrow> error + decryptBlockResult" where
  "decryptBlock block roundKeys trackRounds =
     (let s0 = bytesToStateMatrix block in
      bind_err (pushDetail trackRounds [] NUMBER_OF_ROUNDS ''Initial State (Cipher)'' s0 None) (\<lambda>d.
      let s1 = addRoundKey s0 (roundKeys ! NUMBER_OF_ROUNDS) in
      bind_err (pushDetail trackRounds d NUMBER_OF_ROUNDS ''After AddRoundKey'' s1
                  (Some (roundKeys ! NUMBER_OF_ROUNDS))) (\<lambda>d.
      bind_err (decryptRounds roundKeys trackRounds (NUMBER_OF_ROUNDS - 1) s1 d) (\<lambda>(s2, d).
      let finalRound = 0 in
      bind_err (pushDetail trackRounds d finalRound ''Start of Final Round'' s2 None) (\<lambda>d.
      let s3 = inverseShiftRows s2 in
      bind_err (pushDetail trackRounds d finalRound ''After InverseShiftRows'' s3 None) (\<lambda>d.
      let s4 = inverseSubstituteBytes s3 in
      bind_err (pushDetail trackRounds d finalRound ''After InverseSubBytes'' s4 None) (\<lambda>d.
      let s5 = addRoundKey s4 (roundKeys ! finalRound) in
      bind_err (pushDetail trackRounds d finalRound ''After AddRoundKey (Final)'' s5
                  (Some (roundKeys ! finalRound))) (\<lambda>d.
      Inr \<lparr>decryptedBlock = stateMatrixToBytes s5, decryptRoundDetails = d\<rparr>))))))))"

section \<open>Text encryption (encryption.js) and decryption (decryption.js)\<close>

text \<open>\<open>roundKeys.map(rk => formatStateMatrix(rk))\<close>, in the result of both functions.\<close>

fun formatRoundKeys :: "state list \<Rightarrow> error + string list" where
  "formatRoundKeys [] = Inr []"
| "formatRoundKeys (rk # rest) =
     bind_err (formatStateMatrix rk) (\<lambda>txt.
     bind_err (formatRoundKeys rest) (\<lambda>txts. Inr (txt # txts)))"

text \<open>The states of all blocks: block \<open>i\<close> is \<open>slice(i * 16, (i + 1) * 16)\<close>, for
  \<open>i < numBlocks\<close> with \<open>numBlocks = length / 16\<close>. The division is not rounded, so the
  loop test \<open>i < numBlocks\<close> is \<open>i * 16 < length\<close>.\<close>

function initBlockStates :: "jsval list \<Rightarrow> nat \<Rightarrow> state list \<Rightarrow> state list" where
  "initBlockStates bytes i blockStates =
     (if i * 16 < length bytes
      then initBlockStates bytes (i + 1)
             (blockStates @ [bytesToStateMatrix (slice bytes (i * 16) ((i + 1) * 16))])
      else blockStates)"
  by pat_completeness auto
termination
  by (relation "measure (\<lambda>(bytes, i, blockStates). length bytes - i * 16)") auto

declare initBlockStates.simps [simp del]

text \<open>\<open>blockStates.forEach(state => full.push(...stateMatrixToBytes(state)))\<close>.\<close>

definition collectBytes :: "state list \<Rightarrow> jsval list" where
  "collectBytes blockStates = concat (map stateMatrixToBytes blockStates)"

text \<open>The tracking path of \<open>encryptText\<close>: one round on all blocks, then the bytes of
  all blocks are stored under the round number.\<close>

function encryptAllRounds ::
  "state list \<Rightarrow> nat \<Rightarrow> state list \<Rightarrow> (nat \<rightharpoonup> jsval list)
     \<Rightarrow> state list \<times> (nat \<rightharpoonup> jsval list)" where
  "encryptAllRounds roundKeys r blockStates perRound =
     (if r < NUMBER_OF_ROUNDS then
        (let blockStates =
               map (\<lambda>s. addRoundKey (mixColumns (shiftRows (substituteBytes s))) (roundKeys ! r))
                 blockStates;
             fullCipher = collectBytes blockStates
         in encryptAllRounds roundKeys (r + 1) blockStates (perRound(r \<mapsto> fullCipher)))
      else (blockStates, perRound))"
  by pat_completeness auto
termination
  by (relation "measure (\<lambda>(roundKeys, r, blockStates, perRound). NUMBER_OF_ROUNDS - r)") auto

declare encryptAllRounds.simps [simp del]

definition encryptTracked ::
  "jsval list \<Rightarrow> state list \<Rightarrow> jsval list \<times> (nat \<rightharpoonup> jsval list)" where
  "encryptTracked paddedData roundKeys =
     (let blockStates = initBlockStates paddedData 0 [];
          blockStates = map (\<lambda>s. addRoundKey s (roundKeys ! 0)) blockStates;
          perRound = [0 \<mapsto> collectBytes blockStates];
          (blockStates, perRound) = encryptAllRounds roundKeys 1 blockStates perRound;
          finalRound = NUMBER_OF_ROUNDS;
          blockStates =
            map (\<lambda>s. addRoundKey (shiftRows (substituteBytes s)) (roundKeys ! finalRound))
              blockStates;
          fullCipher = collectBytes blockStates
      in (fullCipher, perRound(finalRound \<mapsto> fullCipher)))"

text \<open>The path without tracking: one block after the other, \<open>i\<close> in steps of 16.\<close>

function encryptBlocks ::
  "jsval list \<Rightarrow> state list \<Rightarrow> nat \<Rightarrow> jsval list \<Rightarrow> error + jsval list" where
  "encryptBlocks paddedData roundKeys i cipherBytes =
     (if i < length paddedData then
        bind_err (encryptBlock (slice paddedData i (i + 16)) roundKeys False) (\<lambda>res.
        encryptBlocks paddedData roundKeys (i + 16) (cipherBytes @ encryptedBlock res))
      else Inr cipherBytes)"
  by pat_completeness auto
termination
  by (relation "measure (\<lambda>(paddedData, roundKeys, i, cipherBytes). length paddedData - i)") auto

declare encryptBlocks.simps [simp del]

record encryptTextResult =
  cipherBytes :: "jsval list"
  encryptTextRoundDetails :: "roundDetail list"
  encryptPerRound :: "(nat \<rightharpoonup> jsval list) option"
  encryptKeyExpansion :: "string list"

definition encryptText :: "jsval list \<Rightarrow> jsval list \<Rightarrow> bool \<Rightarrow> error + encryptTextResult" where
  "encryptText plainBytes key trackRounds =
     (let paddedData = padData plainBytes;
          roundKeys = expandKey key in
      bind_err
        (if trackRounds then
           (let (fullCipher, perRound) = encryptTracked paddedData roundKeys
            in Inr (fullCipher, Some perRound))
         else
           bind_err (encryptBlocks paddedData roundKeys 0 []) (\<lambda>bytes. Inr (bytes, None)))
        (\<lambda>(cipher, completeCipherPerRound).
      bind_err
        (if trackRounds then
           bind_err (encryptBlock (slice paddedData 0 16) roundKeys True) (\<lambda>res.
           Inr (encryptRoundDetails res))
         else Inr [])
        (\<lambda>allRoundDetails.
      bind_err (formatRoundKeys roundKeys) (\<lambda>keyTexts.
      Inr \<lparr>cipherBytes = cipher, encryptTextRoundDetails = allRoundDetails,
           encryptPerRound = completeCipherPerRound, encryptKeyExpansion = keyTexts\<rparr>))))"

text \<open>The tracking path of \<open>decryptText\<close>, rounds NUMBER_OF_ROUNDS - 1 down to 1.\<close>

function decryptAllRounds ::
  "state list \<Rightarrow> nat \<Rightarrow> state list \<Rightarrow> (nat \<rightharpoonup> jsval list)
     \<Rightarrow> state list \<times> (nat \<rightharpoonup> jsval list)" where
  "decryptAllRounds roundKeys r blockStates perRound =
     (if r \<ge> 1 then
        (let blockStates =
               map (\<lambda>s. inverseMixColumns
                          (addRoundKey (inverseSubstituteBytes (inverseShiftRows s))
                            (roundKeys ! r)))
                 blockStates;
             fullPlain = collectBytes blockStates
         in decryptAllRounds roundKeys (r - 1) blockStates (perRound(r \<mapsto> fullPlain)))
      else (blockStates, perRound))"
  by pat_completeness auto
termination
  by (relation "measure (\<lambda>(roundKeys, r, blockStates, perRound). r)") auto

declare decryptAllRounds.simps [simp del]

definition decryptTracked ::
  "jsval list \<Rightarrow> state list \<Rightarrow> jsval list \<times> (nat \<rightharpoonup> jsval list)" where
  "decryptTracked cipher roundKeys =
     (let blockStates = initBlockStates cipher 0 [];
          blockStates = map (\<lambda>s. addRoundKey s (roundKeys ! NUMBER_OF_ROUNDS)) blockStates;
          perRound = [NUMBER_OF_ROUNDS \<mapsto> collectBytes blockStates];
          (blockStates, perRound) =
            decryptAllRounds roundKeys (NUMBER_OF_ROUNDS - 1) blockStates perRound;
          finalRound = 0;
          blockStates =
            map (\<lambda>s. addRoundKey (inverseSubstituteBytes (inverseShiftRows s))
                       (roundKeys ! finalRound))
              blockStates;
          fullPlain = collectBytes blockStates
      in (fullPlain, perRound(finalRound \<mapsto> fullPlain)))"

function decryptBlocks ::
  "jsval list \<Rightarrow> state list \<Rightarrow> nat \<Rightarrow> jsval list \<Rightarrow> error + jsval list" where
  "decryptBlocks cipher roundKeys i tempPlainBytes =
     (if i < length cipher then
        bind_err (decryptBlock (slice cipher i (i + 16)) roundKeys False) (\<lambda>res.
        decryptBlocks cipher roundKeys (i + 16) (tempPlainBytes @ decryptedBlock res))
      else Inr tempPlainBytes)"
  by pat_completeness auto
termination
  by (relation "measure (\<lambda>(cipher, roundKeys, i, tempPlainBytes). length cipher - i)") auto

declare decryptBlocks.simps [simp del]

record decryptTextResult =
  plainBytes :: "jsval list"
  decryptTextRoundDetails :: "roundDetail list"
  decryptPerRound :: "(nat \<rightharpoonup> jsval list) option"
  decryptKeyExpansion :: "string list"

definition decryptText :: "jsval list \<Rightarrow> jsval list \<Rightarrow> bool \<Rightarrow> error + decryptTextResult" where
  "decryptText cipher key trackRounds =
     (let roundKeys = expandKey key in
      bind_err
        (if trackRounds then
           (let (fullPlain, perRound) = decryptTracked cipher roundKeys
            in bind_err (unpadData fullPlain) (\<lambda>plain. Inr (plain, Some perRound)))
         else
           bind_err (decryptBlocks cipher roundKeys 0 []) (\<lambda>tempPlainBytes.
           bind_err (unpadData tempPlainBytes) (\<lambda>plain. Inr (plain, None))))
        (\<lambda>(plain, completeCipherPerRound).
      bind_err
        (if trackRounds then
           bind_err (decryptBlock (slice cipher 0 16) roundKeys True) (\<lambda>res.
           Inr (decryptRoundDetails res))
         else Inr [])
        (\<lambda>allRoundDetails.
      bind_err (formatRoundKeys roundKeys) (\<lambda>keyTexts.
      Inr \<lparr>plainBytes = plain, decryptTextRoundDetails = allRoundDetails,
           decryptPerRound = completeCipherPerRound, decryptKeyExpansion = keyTexts\<rparr>))))"

section \<open>Notions used in the statements\<close>

text \<open>Doubling in GF(2^8) on a byte, what \<open>multiplyByTwo\<close> computes.\<close>

definition xtime :: "byte \<Rightarrow> byte" where
  "xtime b = push_bit 1 b XOR (if bit b 7 then 0x1b else 0)"

text \<open>A state of bytes: 4 rows of 4 cells, none of them \<open>undefined\<close>.\<close>

definition is_state :: "state \<Rightarrow> bool" where
  "is_state s = (length s = 4 \<and> (\<forall>row \<in> set s. length row = 4 \<and> None \<notin> set row))"

text \<open>The last \<open>n\<close> bytes of \<open>bs\<close> exist and each of them equals \<open>n\<close>.\<close>

definition padding_intact :: "byte list \<Rightarrow> byte \<Rightarrow> bool" where
  "padding_intact bs n =
     (unat n \<le> length bs \<and> (\<forall>b \<in> set (drop (length bs - unat n) bs). b = n))"

text \<open>The key schedule in the words of the specification, on 4-byte words: RotWord
  rotates the bytes left by one position, SubWord applies the S-box to each byte, and
  word \<open>i\<close> is the transformed word \<open>i - 1\<close> XOR word \<open>i - 8\<close>.\<close>

definition spec_SubWord :: "byte list \<Rightarrow> byte list" where
  "spec_SubWord w = map (\<lambda>b. S_BOX ! unat b) w"

definition spec_RotWord :: "byte list \<Rightarrow> byte list" where
  "spec_RotWord w = rotate1 w"

definition spec_xor :: "byte list \<Rightarrow> byte list \<Rightarrow> byte list" where
  "spec_xor v w = map2 (\<lambda>a b. a XOR b) v w"

definition spec_transform :: "nat \<Rightarrow> byte list \<Rightarrow> byte list" where
  "spec_transform i w =
     (if i mod 8 = 0
      then spec_xor (spec_SubWord (spec_RotWord w)) [ROUND_CONSTANTS ! (i div 8), 0, 0, 0]
      else if i mod 8 = 4 then spec_SubWord w
      else w)"

function spec_word :: "byte list \<Rightarrow> nat \<Rightarrow> byte list" where
  "spec_word key i =
     (if i < 8 then [key ! (4 * i), key ! (4 * i + 1), key ! (4 * i + 2), key ! (4 * i + 3)]
      else spec_xor (spec_transform i (spec_word key (i - 1))) (spec_word key (i - 8)))"
  by pat_completeness auto
termination
  by (relation "measure (\<lambda>(key, i). i)") auto

declare spec_word.simps [simp del]

text \<open>One main round of \<open>encryptBlock\<close> and of \<open>decryptBlock\<close> on the state, and the
  whole of each function on the state, without the records kept for display.\<close>

definition encRound :: "state list \<Rightarrow> state \<Rightarrow> nat \<Rightarrow> state" where
  "encRound rks s r = addRoundKey (mixColumns (shiftRows (substituteBytes s))) (rks ! r)"

definition decRound :: "state list \<Rightarrow> state \<Rightarrow> nat \<Rightarrow> state" where
  "decRound rks s r =
     inverseMixColumns (addRoundKey (inverseSubstituteBytes (inverseShiftRows s)) (rks ! r))"

definition encState :: "state list \<Rightarrow> state \<Rightarrow> state" where
  "encState rks s =
     addRoundKey (shiftRows (substituteBytes
       (foldl (encRound rks) (addRoundKey s (rks ! 0)) [1..<14]))) (rks ! 14)"

definition decState :: "state list \<Rightarrow> state \<Rightarrow> state" where
  "decState rks s =
     addRoundKey (inverseSubstituteBytes (inverseShiftRows
       (foldl (decRound rks) (addRoundKey s (rks ! 14)) (rev [1..<14])))) (rks ! 0)"

text \<open>A block of 16 bytes, as an array.\<close>

definition is_block :: "jsval list \<Rightarrow> bool" where
  "is_block b = (length b = 16 \<and> None \<notin> set b)"

text \<open>The blocks of an array, 16 cells each and the rest in the last one; what
  \<open>encryptBlock\<close> and \<open>decryptBlock\<close> return for a block without tracking.\<close>

function blocks16 :: "'a list \<Rightarrow> 'a list list" where
  "blocks16 xs = (if xs = [] then [] else take 16 xs # blocks16 (drop 16 xs))"
  by pat_completeness auto
termination
  by (relation "measure length") auto

declare blocks16.simps [simp del]

definition blocks_wf :: "'a list list \<Rightarrow> bool" where
  "blocks_wf bs =
     ((\<forall>b \<in> set bs. 0 < length b \<and> length b \<le> 16) \<and> (\<forall>b \<in> set (butlast bs). length b = 16))"

definition encBlock :: "state list \<Rightarrow> jsval list \<Rightarrow> jsval list" where
  "encBlock rks b = stateMatrixToBytes (encState rks (bytesToStateMatrix b))"

definition decBlock :: "state list \<Rightarrow> jsval list \<Rightarrow> jsval list" where
  "decBlock rks b = stateMatrixToBytes (decState rks (bytesToStateMatrix b))"

section \<open>Bytes and the field operations\<close>

lemma byte_induct_all:
  assumes "list_all (\<lambda>n. P (of_nat n :: byte)) [0..<256]"
  shows "P b"
proof -
  have "unat b < 256" using unsigned_less [of b] by simp
  then have "unat b \<in> set [0..<256]" by simp
  with assms have "P (of_nat (unat b))" unfolding list_all_iff by blast
  then show ?thesis by simp
qed

lemma js_xor_Some [simp]: "js_xor (Some a) (Some b) = Some (a XOR b)"
  unfolding js_xor_def js_num_def ToInt32_def
  by (simp add: bit_eq_iff bit_simps)

lemma multiplyByTwo_Some [simp]: "multiplyByTwo (Some b) = Some (xtime b)"
  by (rule byte_induct_all [of _ b]) code_simp

lemma xtime_xor: "xtime (a XOR b) = xtime a XOR xtime b"
  unfolding xtime_def 
  by (cases "bit a 7"; cases "bit b 7") (simp_all only: push_bit_xor bit_xor_iff if_True if_False simp_thms xor.assoc xor.commute xor.left_commute xor_self_eq bit.xor_self xor.right_neutral xor.left_neutral)

lemma xor_cancel_left: "(a::byte) XOR (a XOR b) = b"
  by (simp add: xor.assoc [symmetric])

lemmas xor_norm = xtime_xor xor.assoc xor.commute xor.left_commute xor_cancel_left

lemma multiplyByThree_Some [simp]: "multiplyByThree (Some b) = Some (xtime b XOR b)"
  by (simp add: multiplyByThree_def)
lemma multiplyByNine_Some [simp]: "multiplyByNine (Some b) = Some (xtime (xtime (xtime b)) XOR b)"
  by (simp add: multiplyByNine_def)
lemma multiplyByEleven_Some [simp]:
  "multiplyByEleven (Some b) = Some (xtime (xtime (xtime b)) XOR xtime b XOR b)"
  by (simp add: multiplyByEleven_def xor.assoc)
lemma multiplyByThirteen_Some [simp]:
  "multiplyByThirteen (Some b) = Some (xtime (xtime (xtime b)) XOR xtime (xtime b) XOR b)"
  by (simp add: multiplyByThirteen_def xor.assoc)
lemma multiplyByFourteen_Some [simp]:
  "multiplyByFourteen (Some b) = Some (xtime (xtime (xtime b)) XOR xtime (xtime b) XOR xtime b)"
  by (simp add: multiplyByFourteen_def xor.assoc)

lemma length4: "length xs = 4 \<Longrightarrow> \<exists>a b c d. xs = [a, b, c, d]"
  by (cases xs; simp; rename_tac ys; case_tac ys; simp; rename_tac zs; case_tac zs; simp;
      rename_tac ws; case_tac ws; simp)

lemma row4:
  assumes "length row = 4" "None \<notin> set row"
  shows "\<exists>a b c d. row = [Some a, Some b, Some c, Some d]"
proof -
  from assms(1) obtain a b c d where r: "row = [a, b, c, d]" using length4 by blast
  with assms(2) show ?thesis by (cases a; cases b; cases c; cases d) simp_all
qed

lemma is_stateE:
  assumes "is_state s"
  obtains a0 a1 a2 a3 b0 b1 b2 b3 c0 c1 c2 c3 d0 d1 d2 d3 where
    "s = [[Some a0, Some a1, Some a2, Some a3], [Some b0, Some b1, Some b2, Some b3],
          [Some c0, Some c1, Some c2, Some c3], [Some d0, Some d1, Some d2, Some d3]]"
proof -
  from assms obtain r0 r1 r2 r3 where s: "s = [r0, r1, r2, r3]"
    unfolding is_state_def using length4 by blast
  from assms s have
    "length r0 = 4 \<and> None \<notin> set r0" "length r1 = 4 \<and> None \<notin> set r1"
    "length r2 = 4 \<and> None \<notin> set r2" "length r3 = 4 \<and> None \<notin> set r3"
    unfolding is_state_def by simp_all
  then obtain a0 a1 a2 a3 b0 b1 b2 b3 c0 c1 c2 c3 d0 d1 d2 d3 where
    "r0 = [Some a0, Some a1, Some a2, Some a3]" "r1 = [Some b0, Some b1, Some b2, Some b3]"
    "r2 = [Some c0, Some c1, Some c2, Some c3]" "r3 = [Some d0, Some d1, Some d2, Some d3]"
    using row4 by metis
  with s show ?thesis using that by blast
qed

lemma inverseMixColumns_mixColumns:
  "is_state s \<Longrightarrow> inverseMixColumns (mixColumns s) = s"
proof -
  assume "is_state s"
  then obtain a0 a1 a2 a3 b0 b1 b2 b3 c0 c1 c2 c3 d0 d1 d2 d3 where
    s: "s = [[Some a0, Some a1, Some a2, Some a3], [Some b0, Some b1, Some b2, Some b3],
          [Some c0, Some c1, Some c2, Some c3], [Some d0, Some d1, Some d2, Some d3]]"
    by (rule is_stateE)
  show ?thesis unfolding s
    by (simp add: inverseMixColumns_def mixColumns_def matrix4_def cell_def
        inverseMixColumn_def mixColumn_def xor_norm)
qed

text \<open>C4: for every 4 by 4 state of bytes, \<open>inverseMixColumns\<close> undoes
  \<open>mixColumns\<close>.\<close>

theorem mixColumns_inverse: "is_state s \<Longrightarrow> inverseMixColumns (mixColumns s) = s"
  by (rule inverseMixColumns_mixColumns)

theorem mixColumns_inverse_witness:
  "is_state [[Some 1, Some 2, Some 3, Some 4], [Some 5, Some 6, Some 7, Some 8],
             [Some 9, Some 10, Some 11, Some 12], [Some 13, Some 14, Some 15, Some 16]] \<and>
   inverseMixColumns (mixColumns
     [[Some 1, Some 2, Some 3, Some 4], [Some 5, Some 6, Some 7, Some 8],
      [Some 9, Some 10, Some 11, Some 12], [Some 13, Some 14, Some 15, Some 16]]) =
     [[Some 1, Some 2, Some 3, Some 4], [Some 5, Some 6, Some 7, Some 8],
      [Some 9, Some 10, Some 11, Some 12], [Some 13, Some 14, Some 15, Some 16]]"
proof -
  have st: "is_state [[Some 1, Some 2, Some 3, Some 4], [Some 5, Some 6, Some 7, Some 8],
             [Some 9, Some 10, Some 11, Some 12], [Some 13, Some 14, Some 15, Some 16]]"
    by (simp add: is_state_def)
  from st mixColumns_inverse [OF st] show ?thesis by simp
qed

section \<open>Padding\<close>

lemma padLoop_eq:
  "i \<le> n \<Longrightarrow> padLoop i n xs = xs @ replicate (n - i) (Some (of_nat n))"
proof (induction i n xs rule: padLoop.induct)
  case (1 i n xs)
  show ?case
  proof (cases "i < n")
    case True
    then have "n - i = Suc (n - (i + 1))" by simp
    with True 1 show ?thesis
      by (subst padLoop.simps) (simp add: replicate_append_same)
  next
    case False
    with 1 show ?thesis by (subst padLoop.simps) simp
  qed
qed

lemma padData_eq:
  "padData data = data @ replicate (16 - length data mod 16) (Some (of_nat (16 - length data mod 16)))"
  by (simp add: padData_def BLOCK_SIZE_def padLoop_eq)

lemma unpadLoop_iff:
  "unpadLoop data i p =
     (\<forall>j. i \<le> j \<and> j \<le> unat p \<longrightarrow> js_at data (int (length data) - int j) = Some p)"
proof (induction data i p rule: unpadLoop.induct)
  case (1 data i p)
  show ?case
  proof (cases "i \<le> unat p")
    case True
    show ?thesis
    proof (cases "js_at data (int (length data) - int i) = Some p")
      case eq: True
      have "(\<forall>j. i \<le> j \<and> j \<le> unat p \<longrightarrow> js_at data (int (length data) - int j) = Some p) =
            (\<forall>j. i + 1 \<le> j \<and> j \<le> unat p \<longrightarrow> js_at data (int (length data) - int j) = Some p)"
        using eq by (metis Suc_eq_plus1 Suc_leI le_neq_implies_less Suc_leD)
      with True eq 1 show ?thesis
        by (subst unpadLoop.simps) simp
    next
      case False
      with True show ?thesis
        by (subst unpadLoop.simps) auto
    qed
  next
    case False
    then show ?thesis by (subst unpadLoop.simps) auto
  qed
qed

lemma length_bytes_of [simp]: "length (bytes_of bs) = length bs"
  by (simp add: bytes_of_def)

lemma js_at_bytes:
  "js_at (bytes_of bs) (int (length bs) - int j) = Some p \<longleftrightarrow>
   (1 \<le> j \<and> j \<le> length bs \<and> bs ! (length bs - j) = p)"
  by (auto simp add: js_at_def bytes_of_def nat_diff_distrib' of_nat_diff)

lemma unpadLoop_bytes:
  "unpadLoop (bytes_of bs) 1 p = padding_intact bs p"
proof -
  have "(\<forall>j. 1 \<le> j \<and> j \<le> unat p \<longrightarrow> (1 \<le> j \<and> j \<le> length bs \<and> bs ! (length bs - j) = p))
        = padding_intact bs p" (is "?L = ?R")
  proof
    assume L: ?L
    show ?R
    proof (cases "unat p = 0")
      case True then show ?thesis by (simp add: padding_intact_def)
    next
      case False
      with L have le: "unat p \<le> length bs" by (metis One_nat_def Suc_leI not_gr_zero order_refl)
      have "\<forall>b \<in> set (drop (length bs - unat p) bs). b = p"
      proof
        fix b assume "b \<in> set (drop (length bs - unat p) bs)"
        then obtain k where k: "k < unat p" "b = bs ! (length bs - unat p + k)"
          using le by (auto simp add: in_set_conv_nth)
        let ?j = "unat p - k"
        have "1 \<le> ?j \<and> ?j \<le> unat p" using k by simp
        with L have "bs ! (length bs - ?j) = p" by blast
        moreover have "length bs - ?j = length bs - unat p + k" using k le by simp
        ultimately show "b = p" using k by simp
      qed
      with le show ?thesis by (simp add: padding_intact_def)
    qed
  next
    assume R: ?R
    show ?L
    proof (intro allI impI)
      fix j assume j: "1 \<le> j \<and> j \<le> unat p"
      from R have le: "unat p \<le> length bs" by (simp add: padding_intact_def)
      have "bs ! (length bs - j) \<in> set (drop (length bs - unat p) bs)"
      proof -
        have "length bs - j = length bs - unat p + (unat p - j)" using j le by simp
        moreover have "unat p - j < unat p" using j by simp
        ultimately show ?thesis using le by (auto simp add: in_set_conv_nth intro!: exI [of _ "unat p - j"])
      qed
      with R have "bs ! (length bs - j) = p" by (simp add: padding_intact_def)
      with j le show "1 \<le> j \<and> j \<le> length bs \<and> bs ! (length bs - j) = p" by simp
    qed
  qed
  then show ?thesis by (simp add: unpadLoop_iff js_at_bytes)
qed


lemma unpadLoop_bytes_Suc: "unpadLoop (bytes_of bs) (Suc 0) p = padding_intact bs p"
  using unpadLoop_bytes [of bs p] by simp

lemma js_at_last_bytes:
  "bs \<noteq> [] \<Longrightarrow> js_at (bytes_of bs) (int (length bs) - 1) = Some (last bs)"
  by (cases bs rule: rev_cases) (simp_all add: js_at_def bytes_of_def nth_append)

lemma slice_bytes: "slice (bytes_of bs) 0 k = bytes_of (take k bs)"
  by (simp add: slice_def bytes_of_def take_map)

text \<open>C10: \<open>unpadData\<close> of the empty array returns the empty array and raises nothing.\<close>

theorem unpadData_empty: "unpadData [] = Inr []"
  by (simp add: unpadData_def)

text \<open>C6: for a non-empty array of bytes with last byte \<open>n\<close>, \<open>unpadData\<close> throws
  \<open>Invalid padding\<close> exactly when \<open>n = 0\<close>, or \<open>n > 16\<close>, or the last \<open>n\<close> bytes are not all there
  and equal to \<open>n\<close>; otherwise it returns the array without its last \<open>n\<close> bytes.\<close>

theorem unpadData_raises_iff:
  assumes "bs \<noteq> []"
  shows "unpadData (bytes_of bs) =
    (if last bs = 0 \<or> 16 < unat (last bs) \<or> \<not> padding_intact bs (last bs)
     then Inl InvalidPadding
     else Inr (bytes_of (take (length bs - unat (last bs)) bs)))"
  using assms
  by (simp add: unpadData_def js_at_last_bytes unpadLoop_bytes_Suc slice_bytes
      BLOCK_SIZE_def)

theorem unpadData_raises_iff_witness:
  "[1, 2, 2 :: byte] \<noteq> [] \<and> unpadData (bytes_of [1, 2, 2]) = Inr (bytes_of [1]) \<and>
   [7, 3 :: byte] \<noteq> [] \<and> unpadData (bytes_of [7, 3]) = Inl InvalidPadding"
  using unpadData_raises_iff [of "[1, 2, 2]"] unpadData_raises_iff [of "[7, 3]"]
  by (simp add: padding_intact_def)

lemma unpadData_pad:
  assumes n: "1 \<le> n" "n \<le> 16"
  shows "unpadData (data @ replicate n (Some (of_nat n))) = Inr data"
proof -
  let ?p = "of_nat n :: byte"
  let ?xs = "data @ replicate n (Some ?p)"
  have un: "unat ?p = n" using n by (simp add: unat_of_nat take_bit_nat_eq_self)
  have p0: "?p \<noteq> 0" using un n by (metis not_one_le_zero unat_0)
  have at: "js_at ?xs (int (length ?xs) - int j) = Some ?p" if "1 \<le> j" "j \<le> n" for j
  proof -
    have "int (length ?xs) - int j = int (length data + (n - j))" using that by simp
    moreover have "?xs ! (length data + (n - j)) = replicate n (Some ?p) ! (n - j)"
      by (rule nth_append_length_plus)
    moreover have "replicate n (Some ?p) ! (n - j) = Some ?p" using that by simp
    moreover have "nat (int (length data + (n - j))) = length data + (n - j)" by simp
    moreover have "length data + (n - j) < length ?xs" using that by simp
    ultimately show ?thesis unfolding js_at_def by (simp only: of_nat_0_le_iff of_nat_less_iff simp_thms if_True)
  qed
  have last: "js_at ?xs (int (length ?xs) - 1) = Some ?p" using at [of 1] n by simp
  have loop: "unpadLoop ?xs 1 ?p" unfolding unpadLoop_iff un using at by simp
  have "length ?xs \<noteq> 0" using n by simp
  then show ?thesis
    unfolding unpadData_def using last loop p0 un n
    by (simp add: BLOCK_SIZE_def slice_def)
qed

text \<open>C5: \<open>unpadData\<close> undoes \<open>padData\<close>; \<open>padData\<close> appends \<open>n = 16 - (len mod 16)\<close>
  cells of value \<open>n\<close>, a full block of sixteen 16s when the length is a multiple of 16, and
  the padded length is a multiple of 16.\<close>

theorem padData_roundtrip:
  "unpadData (padData data) = Inr data \<and>
   padData data = data @ replicate (16 - length data mod 16)
     (Some (of_nat (16 - length data mod 16))) \<and>
   (length data mod 16 = 0 \<longrightarrow> padData data = data @ replicate 16 (Some 16)) \<and>
   length (padData data) mod 16 = 0"
proof -
  let ?n = "16 - length data mod 16"
  have n: "1 \<le> ?n" "?n \<le> 16" by simp_all
  have "unpadData (padData data) = Inr data"
    unfolding padData_eq using n by (rule unpadData_pad)
  moreover have "length (padData data) mod 16 = 0"
    unfolding padData_eq by (simp add: mod_simps) presburger
  ultimately show ?thesis by (auto simp add: padData_eq)
qed

theorem padData_roundtrip_witness:
  "length (bytes_of (replicate 16 7)) mod 16 = 0 \<and>
   padData (bytes_of (replicate 16 7)) = bytes_of (replicate 16 7) @ replicate 16 (Some 16) \<and>
   unpadData (padData (bytes_of (replicate 16 7))) = Inr (bytes_of (replicate 16 7))"
proof -
  have "length (bytes_of (replicate 16 (7 :: byte))) mod 16 = 0" by simp
  with padData_roundtrip [of "bytes_of (replicate 16 7)"] show ?thesis by blast
qed

section \<open>Key expansion\<close>

lemma js_nth_bytes: "k < length bs \<Longrightarrow> js_nth (bytes_of bs) k = Some (bs ! k)"
  by (simp add: js_nth_def bytes_of_def)

lemma length_S_BOX: "length S_BOX = 256"
  by (simp add: S_BOX_def)

lemma length_INVERSE_S_BOX: "length INVERSE_S_BOX = 256"
  by (simp add: INVERSE_S_BOX_def)

lemma unat_byte_less: "unat (b :: byte) < 256"
  using unsigned_less [of b] by simp

lemma table_at_S_BOX: "table_at S_BOX (Some b) = Some (S_BOX ! unat b)"
  by (simp add: table_at_def js_nth_bytes length_S_BOX unat_byte_less)

lemma table_at_INVERSE_S_BOX: "table_at INVERSE_S_BOX (Some b) = Some (INVERSE_S_BOX ! unat b)"
  by (simp add: table_at_def js_nth_bytes length_INVERSE_S_BOX unat_byte_less)

lemma length_expandLoop: "i = length ws \<Longrightarrow> i \<le> n \<Longrightarrow> length (expandLoop i n ws) = n"
proof (induction i n ws rule: expandLoop.induct)
  case (1 i n ws)
  show ?case
  proof (cases "i < n")
    case True
    with 1 show ?thesis by (subst expandLoop.simps) simp
  next
    case False
    with 1 show ?thesis by (subst expandLoop.simps) simp
  qed
qed

lemma expandLoop_prefix:
  "i = length ws \<Longrightarrow> j < length ws \<Longrightarrow> expandLoop i n ws ! j = ws ! j"
proof (induction i n ws rule: expandLoop.induct)
  case (1 i n ws)
  show ?case
  proof (cases "i < n")
    case True
    with 1 show ?thesis by (subst expandLoop.simps) (simp add: nth_append)
  next
    case False
    then show ?thesis by (subst expandLoop.simps) simp
  qed
qed

lemma nextWord_cong:
  "ws ! (i - 1) = ws' ! (i - 1) \<Longrightarrow> ws ! (i - KEY_SIZE_WORDS) = ws' ! (i - KEY_SIZE_WORDS)
   \<Longrightarrow> nextWord i ws = nextWord i ws'"
  by (simp add: nextWord_def)

lemma expandLoop_step:
  "i = length ws \<Longrightarrow> 1 \<le> i \<Longrightarrow> i \<le> j \<Longrightarrow> j < n \<Longrightarrow>
   expandLoop i n ws ! j = nextWord j (expandLoop i n ws)"
proof (induction i n ws rule: expandLoop.induct)
  case (1 i n ws)
  let ?ws' = "ws @ [nextWord i ws]"
  from 1(3-) have lt: "i < n" by simp
  have unf: "expandLoop i n ws = expandLoop (i + 1) n ?ws'"
    using lt by (subst expandLoop.simps) simp
  have len: "i + 1 = length ?ws'" using 1 by simp
  show ?case
  proof (cases "j = i")
    case True
    have pre: "expandLoop (i + 1) n ?ws' ! k = ws ! k" if "k < i" for k
      using that expandLoop_prefix [OF len, of k n] 1(2) by (simp add: nth_append)
    have "expandLoop (i + 1) n ?ws' ! i = nextWord i ws"
      using expandLoop_prefix [OF len, of i n] 1(2) by (simp add: nth_append)
    moreover have "nextWord i ws = nextWord i (expandLoop (i + 1) n ?ws')"
    proof (rule nextWord_cong)
      show "ws ! (i - 1) = expandLoop (i + 1) n ?ws' ! (i - 1)"
        using pre [of "i - 1"] 1(3) by simp
      show "ws ! (i - KEY_SIZE_WORDS) = expandLoop (i + 1) n ?ws' ! (i - KEY_SIZE_WORDS)"
        using pre [of "i - KEY_SIZE_WORDS"] 1(3) by (simp add: KEY_SIZE_WORDS_def)
    qed
    ultimately show ?thesis unfolding unf True by simp
  next
    case False
    with 1(4) have "i + 1 \<le> j" by simp
    with 1(1) [OF lt len _ _ 1(5)] show ?thesis unfolding unf by simp
  qed
qed


lemma length_expandWords: "length (expandWords key) = 60"
  by (simp add: expandWords_def NUMBER_OF_ROUNDS_def KEY_SIZE_WORDS_def keyWords_def
      length_expandLoop)

lemma expandWords_first: "i < 8 \<Longrightarrow> expandWords key ! i = keyWords key ! i"
  by (simp add: expandWords_def KEY_SIZE_WORDS_def keyWords_def expandLoop_prefix)

lemma expandWords_next:
  "8 \<le> i \<Longrightarrow> i < 60 \<Longrightarrow> expandWords key ! i = nextWord i (expandWords key)"
  unfolding expandWords_def Let_def
  by (rule expandLoop_step) (simp_all add: NUMBER_OF_ROUNDS_def KEY_SIZE_WORDS_def keyWords_def)

lemma length_expandKey: "length (expandKey key) = 15"
  by (simp add: expandKey_def NUMBER_OF_ROUNDS_def)

lemma keyWords_bytes:
  assumes "length key = 32" "i < 8"
  shows "keyWords (bytes_of key) ! i =
    bytes_of [key ! (4 * i), key ! (4 * i + 1), key ! (4 * i + 2), key ! (4 * i + 3)]"
  using assms by (simp add: keyWords_def KEY_SIZE_WORDS_def js_nth_bytes) (simp add: bytes_of_def)

lemma keyWords_take: "keyWords (take 32 key) = keyWords key"
  by (simp add: keyWords_def KEY_SIZE_WORDS_def js_nth_def)

lemma expandKey_take: "expandKey (take 32 key) = expandKey key"
  by (simp add: expandKey_def expandWords_def keyWords_take)

lemma length_spec_word: "length key = 32 \<Longrightarrow> length (spec_word key i) = 4"
proof (induction key i rule: spec_word.induct)
  case (1 key i)
  show ?case
  proof (cases "i < 8")
    case True
    then show ?thesis by (subst spec_word.simps) simp
  next
    case False
    with 1 show ?thesis
      by (subst spec_word.simps)
        (simp add: spec_xor_def spec_transform_def spec_SubWord_def spec_RotWord_def)
  qed
qed

lemma js_xor_Some_None: "js_xor (Some a) None = Some a"
  unfolding js_xor_def js_num_def ToInt32_def by (simp add: bit_eq_iff bit_simps)

lemma nextWord_bytes:
  assumes a: "ws ! (i - 1) = bytes_of [a0, a1, a2, a3]"
    and b: "ws ! (i - 8) = bytes_of [b0, b1, b2, b3]"
    and i: "8 \<le> i" "i < 60"
  shows "nextWord i ws = bytes_of (spec_xor (spec_transform i [a0, a1, a2, a3]) [b0, b1, b2, b3])"
proof -
  have rc: "i mod 8 = 0 \<Longrightarrow> js_nth (bytes_of ROUND_CONSTANTS) (i div 8) = Some (ROUND_CONSTANTS ! (i div 8))"
    using i by (intro js_nth_bytes) (simp add: ROUND_CONSTANTS_def)
  show ?thesis
    unfolding nextWord_def KEY_SIZE_WORDS_def a b
    using rc
    by (simp add: bytes_of_def rotateWord_def js_nth_def js_xor_Some js_xor_Some_None
        substituteWord_def table_at_S_BOX xorWords_def spec_xor_def spec_transform_def
        spec_SubWord_def spec_RotWord_def upt_rec [of 0] upt_rec [of 1] upt_rec [of 2] upt_rec [of 3])
qed


lemma expandWords_spec:
  assumes key: "length key = 32"
  shows "i < 60 \<Longrightarrow> expandWords (bytes_of key) ! i = bytes_of (spec_word key i)"
proof (induction i rule: less_induct)
  case (less i)
  show ?case
  proof (cases "i < 8")
    case True
    then show ?thesis
      by (subst spec_word.simps) (simp add: expandWords_first keyWords_bytes [OF key])
  next
    case False
    then have i: "8 \<le> i" by simp
    obtain a0 a1 a2 a3 where a: "spec_word key (i - 1) = [a0, a1, a2, a3]"
      using length4 [OF length_spec_word [OF key, of "i - 1"]] by blast
    obtain b0 b1 b2 b3 where b: "spec_word key (i - 8) = [b0, b1, b2, b3]"
      using length4 [OF length_spec_word [OF key, of "i - 8"]] by blast
    have "i - 1 < i" "i - 1 < 60" "i - 8 < i" "i - 8 < 60"
      using i less.prems by simp_all
    then have wa: "expandWords (bytes_of key) ! (i - 1) = bytes_of [a0, a1, a2, a3]"
      and wb: "expandWords (bytes_of key) ! (i - 8) = bytes_of [b0, b1, b2, b3]"
      using less.IH [of "i - 1"] less.IH [of "i - 8"] unfolding a b by blast+
    have "expandWords (bytes_of key) ! i = nextWord i (expandWords (bytes_of key))"
      using i less.prems by (rule expandWords_next)
    also have "\<dots> = bytes_of (spec_xor (spec_transform i [a0, a1, a2, a3]) [b0, b1, b2, b3])"
      using wa wb i less.prems by (rule nextWord_bytes)
    also have "\<dots> = bytes_of (spec_word key i)"
    proof -
      have "spec_word key i =
        spec_xor (spec_transform i (spec_word key (i - 1))) (spec_word key (i - 8))"
        using False by (subst spec_word.simps) simp
      then show ?thesis unfolding a b by simp
    qed
    finally show ?thesis .
  qed
qed

lemma matrix4_cong:
  "(\<And>r c. r < 4 \<Longrightarrow> c < 4 \<Longrightarrow> f r c = g r c) \<Longrightarrow> matrix4 f = matrix4 g"
  by (simp add: matrix4_def)

lemma expandKey_nth: "r < 15 \<Longrightarrow> expandKey key ! r = roundKeyOf (expandWords key) r"
  by (simp add: expandKey_def NUMBER_OF_ROUNDS_def)

lemma expandKey_spec:
  assumes key: "length key = 32" and r: "r < 15"
  shows "expandKey (bytes_of key) ! r =
    matrix4 (\<lambda>row col. Some (spec_word key (4 * r + col) ! row))"
proof -
  have "js_nth (expandWords (bytes_of key) ! (r * 4 + col)) row =
        Some (spec_word key (4 * r + col) ! row)" if "row < 4" "col < 4" for row col
  proof -
    have "r * 4 + col < 60" using r that by simp
    then have "expandWords (bytes_of key) ! (r * 4 + col) = bytes_of (spec_word key (r * 4 + col))"
      by (rule expandWords_spec [OF key])
    then show ?thesis
      using that length_spec_word [OF key, of "r * 4 + col"]
      by (simp add: js_nth_bytes mult.commute)
  qed
  then show ?thesis
    unfolding expandKey_nth [OF r] roundKeyOf_def by (intro matrix4_cong) simp
qed

lemma expandKey_0:
  assumes key: "length key = 32"
  shows "expandKey (bytes_of key) ! 0 = bytesToStateMatrix (bytes_of key)"
proof -
  have "js_nth (expandWords (bytes_of key) ! (0 * 4 + col)) row =
        js_nth (bytes_of key) (col * 4 + row)" if "row < 4" "col < 4" for row col
  proof -
    have "col < 8" using that by simp
    then have "expandWords (bytes_of key) ! col =
      bytes_of [key ! (4 * col), key ! (4 * col + 1), key ! (4 * col + 2), key ! (4 * col + 3)]"
      by (simp add: expandWords_first keyWords_bytes [OF key])
    moreover have "row = 0 \<or> row = 1 \<or> row = 2 \<or> row = 3" using that by auto
    ultimately show ?thesis
      using that key by (auto simp add: js_nth_bytes mult.commute)
  qed
  then show ?thesis
    unfolding expandKey_nth [of 0, simplified] roundKeyOf_def bytesToStateMatrix_def
    by (intro matrix4_cong) simp
qed

text \<open>C3: for a 32-byte key the key schedule has 60 words and 15 round keys. Words 0..7
  are the key bytes in order, and for \<open>8 \<le> i < 60\<close> word \<open>i\<close> is the transformed word
  \<open>i - 1\<close> XOR word \<open>i - 8\<close> (\<open>spec_word\<close>: SubWord of RotWord XOR Rcon when
  \<open>i mod 8 = 0\<close>, SubWord when \<open>i mod 8 = 4\<close>, unchanged otherwise). Round key \<open>r\<close> has
  word \<open>4r + col\<close> as its column \<open>col\<close>, and round key 0 is the key reshaped column by
  column.\<close>

theorem expandKey_schedule:
  assumes "length key = 32"
  shows "length (expandKey (bytes_of key)) = 15 \<and>
    length (expandWords (bytes_of key)) = 60 \<and>
    (\<forall>i<60. length (expandWords (bytes_of key) ! i) = 4) \<and>
    (\<forall>i<60. expandWords (bytes_of key) ! i = bytes_of (spec_word key i)) \<and>
    (\<forall>r<15. expandKey (bytes_of key) ! r =
       matrix4 (\<lambda>row col. Some (spec_word key (4 * r + col) ! row))) \<and>
    expandKey (bytes_of key) ! 0 = bytesToStateMatrix (bytes_of key)"
proof -
  have "length (expandWords (bytes_of key) ! i) = 4" if "i < 60" for i
    using expandWords_spec [OF assms that] length_spec_word [OF assms, of i] by simp
  with assms length_expandKey [of "bytes_of key"] length_expandWords [of "bytes_of key"]
    expandWords_spec [of key] expandKey_spec [of key] expandKey_0 [of key]
  show ?thesis by blast
qed

theorem expandKey_schedule_witness:
  "length (replicate 32 (1 :: byte)) = 32 \<and>
   length (expandKey (bytes_of (replicate 32 1))) = 15 \<and>
   expandWords (bytes_of (replicate 32 1)) ! 8 = bytes_of (spec_word (replicate 32 1) 8) \<and>
   expandKey (bytes_of (replicate 32 1)) ! 14 =
     matrix4 (\<lambda>row col. Some (spec_word (replicate 32 1) (4 * 14 + col) ! row))"
proof -
  have len: "length (replicate 32 (1 :: byte)) = 32" by simp
  have "(8 :: nat) < 60" "(14 :: nat) < 15" by simp_all
  with len expandKey_schedule [OF len] show ?thesis by blast
qed

text \<open>C7, as amended: \<open>expandKey\<close> does not check the length of the key. It returns 15
  round keys for every key array, and it reads the first 32 bytes only: a longer key
  gives the round keys, and the results of \<open>encryptText\<close> and \<open>decryptText\<close>, of its
  first 32 bytes.\<close>

theorem expandKey_no_length_check:
  "length (expandKey key) = 15 \<and>
   (32 \<le> length key \<longrightarrow>
      expandKey key = expandKey (take 32 key) \<and>
      encryptText plain key trackRounds = encryptText plain (take 32 key) trackRounds \<and>
      decryptText cipher key trackRounds = decryptText cipher (take 32 key) trackRounds)"
  by (simp add: length_expandKey expandKey_take encryptText_def decryptText_def)

theorem expandKey_no_length_check_witness:
  "32 \<le> length (bytes_of (replicate 40 5)) \<and>
   expandKey (bytes_of (replicate 40 5)) = expandKey (take 32 (bytes_of (replicate 40 5)))"
proof -
  have "32 \<le> length (bytes_of (replicate 40 (5 :: byte)))" by simp
  with expandKey_no_length_check [of "bytes_of (replicate 40 5)"] show ?thesis by blast
qed

section \<open>Block encryption and decryption\<close>

lemma bind_err_Inr [simp]: "bind_err (Inr x) f = f x"
  by (simp add: bind_err_def)

lemma bind_err_Inl [simp]: "bind_err (Inl e) f = Inl e"
  by (simp add: bind_err_def)

lemma pushDetail_False [simp]: "pushDetail False d r n s k = Inr d"
  by (simp add: pushDetail_def)

lemma encryptRounds_untracked:
  "encryptRounds rks False r s d = Inr (foldl (encRound rks) s [r..<NUMBER_OF_ROUNDS], d)"
proof (induction "NUMBER_OF_ROUNDS - r" arbitrary: r s)
  case 0
  then show ?case by (subst encryptRounds.simps) simp
next
  case (Suc n)
  then have lt: "r < NUMBER_OF_ROUNDS" and n: "n = NUMBER_OF_ROUNDS - (r + 1)" by simp_all
  show ?case
    using lt Suc(1) [OF n]
    by (subst encryptRounds.simps) (simp add: upt_rec [of r] encRound_def)
qed

lemma decryptRounds_untracked:
  "decryptRounds rks False r s d = Inr (foldl (decRound rks) s (rev [1..<Suc r]), d)"
proof (induction r arbitrary: s)
  case 0
  show ?case by (subst decryptRounds.simps) simp
next
  case (Suc r)
  have "decryptRounds rks False (Suc r) s d =
        decryptRounds rks False r (decRound rks s (Suc r)) d"
    by (subst decryptRounds.simps) (simp add: decRound_def)
  also have "\<dots> = Inr (foldl (decRound rks) (decRound rks s (Suc r)) (rev [1..<Suc r]), d)"
    by (rule Suc)
  finally show ?case by simp
qed

lemma encryptBlock_untracked:
  "encryptBlock b rks False =
     Inr \<lparr>encryptedBlock = stateMatrixToBytes (encState rks (bytesToStateMatrix b)),
          encryptRoundDetails = []\<rparr>"
  by (simp add: encryptBlock_def encryptRounds_untracked encState_def NUMBER_OF_ROUNDS_def)

lemma decryptBlock_untracked:
  "decryptBlock b rks False =
     Inr \<lparr>decryptedBlock = stateMatrixToBytes (decState rks (bytesToStateMatrix b)),
          decryptRoundDetails = []\<rparr>"
  by (simp add: decryptBlock_def decryptRounds_untracked decState_def NUMBER_OF_ROUNDS_def)

lemma sbox_inverse: "table_at INVERSE_S_BOX (table_at S_BOX (Some b)) = Some b"
  by (rule byte_induct_all [of _ b]) code_simp

lemma js_xor_cancel: "js_xor (js_xor (Some a) k) k = Some a"
  by (cases k) (simp_all add: js_xor_Some_None xor.assoc)

lemma js_xor_not_None [simp]: "js_xor a b \<noteq> None"
  by (simp add: js_xor_def js_num_def)

lemma js_xor_is_Some [simp]: "\<exists>y. js_xor a b = Some y"
  by (simp add: js_xor_def js_num_def)

lemma is_state_matrix4:
  assumes "\<And>r c. r < 4 \<Longrightarrow> c < 4 \<Longrightarrow> f r c \<noteq> None"
  shows "is_state (matrix4 f)"
proof -
  have "None \<noteq> f r c" if "r < 4" "c < 4" for r c
    using assms [OF that] by (rule not_sym)
  then show ?thesis by (simp add: is_state_def matrix4_def)
qed

lemma is_state_addRoundKey [simp]: "is_state (addRoundKey s k)"
  unfolding addRoundKey_def by (rule is_state_matrix4) simp

lemma is_state_mixColumns [simp]: "is_state (mixColumns s)"
  unfolding mixColumns_def by (rule is_state_matrix4) (simp add: mixColumn_def Let_def)

lemma is_state_substituteBytes: "is_state s \<Longrightarrow> is_state (substituteBytes s)"
  by (erule is_stateE)
    (simp add: substituteBytes_def matrix4_def cell_def table_at_S_BOX is_state_def)

lemma is_state_shiftRows: "is_state s \<Longrightarrow> is_state (shiftRows s)"
  by (erule is_stateE) (simp add: shiftRows_def cell_def is_state_def)

lemma inverseSubstituteBytes_substituteBytes:
  "is_state s \<Longrightarrow> inverseSubstituteBytes (substituteBytes s) = s"
  by (erule is_stateE)
    (simp add: inverseSubstituteBytes_def substituteBytes_def matrix4_def cell_def sbox_inverse)

lemma inverseShiftRows_shiftRows: "is_state s \<Longrightarrow> inverseShiftRows (shiftRows s) = s"
  by (erule is_stateE) (simp add: inverseShiftRows_def shiftRows_def cell_def)

lemma addRoundKey_twice: "is_state s \<Longrightarrow> addRoundKey (addRoundKey s k) k = s"
  by (erule is_stateE) (simp add: addRoundKey_def matrix4_def cell_def js_xor_cancel)

lemma is_state_encRound [simp]: "is_state (encRound rks s r)"
  by (simp add: encRound_def)

lemma decRound_encRound:
  assumes "is_state s"
  shows "decRound rks (shiftRows (substituteBytes (encRound rks s r))) r =
         shiftRows (substituteBytes s)"
proof -
  let ?m = "mixColumns (shiftRows (substituteBytes s))"
  have e: "is_state (encRound rks s r)" by simp
  have "inverseSubstituteBytes (inverseShiftRows (shiftRows (substituteBytes (encRound rks s r))))
        = encRound rks s r"
    using e by (simp add: inverseShiftRows_shiftRows is_state_substituteBytes
        inverseSubstituteBytes_substituteBytes)
  moreover have "addRoundKey (encRound rks s r) (rks ! r) = ?m"
    unfolding encRound_def by (rule addRoundKey_twice) simp
  moreover have "inverseMixColumns ?m = shiftRows (substituteBytes s)"
    using assms by (intro inverseMixColumns_mixColumns is_state_shiftRows is_state_substituteBytes)
  ultimately show ?thesis by (simp add: decRound_def)
qed

lemma is_state_foldl_encRound: "is_state s \<Longrightarrow> is_state (foldl (encRound rks) s rs)"
  by (induction rs arbitrary: s) simp_all

lemma foldl_decRound_encRound:
  "is_state s \<Longrightarrow>
   foldl (decRound rks) (shiftRows (substituteBytes (foldl (encRound rks) s rs))) (rev rs) =
   shiftRows (substituteBytes s)"
proof (induction rs arbitrary: s)
  case Nil
  show ?case by simp
next
  case (Cons r rs)
  have "is_state (encRound rks s r)" by simp
  from Cons.IH [OF this] Cons.prems show ?case by (simp add: decRound_encRound)
qed

lemma decState_encState: "is_state s \<Longrightarrow> decState rks (encState rks s) = s"
proof -
  assume s: "is_state s"
  let ?x = "foldl (encRound rks) (addRoundKey s (rks ! 0)) [1..<14]"
  have x: "is_state ?x" by (simp add: is_state_foldl_encRound)
  have 1: "addRoundKey (encState rks s) (rks ! 14) = shiftRows (substituteBytes ?x)"
    unfolding encState_def
    by (intro addRoundKey_twice is_state_shiftRows is_state_substituteBytes x)
  have 2: "foldl (decRound rks) (shiftRows (substituteBytes ?x)) (rev [1..<14]) =
           shiftRows (substituteBytes (addRoundKey s (rks ! 0)))"
    by (rule foldl_decRound_encRound) simp
  have 3: "inverseSubstituteBytes (inverseShiftRows
             (shiftRows (substituteBytes (addRoundKey s (rks ! 0))))) = addRoundKey s (rks ! 0)"
    by (simp add: inverseShiftRows_shiftRows is_state_substituteBytes
        inverseSubstituteBytes_substituteBytes)
  show ?thesis
    unfolding decState_def 1 2 3 using s by (rule addRoundKey_twice)
qed

lemma is_state_encState [simp]: "is_state (encState rks s)"
  by (simp add: encState_def)

lemma length16:
  "length xs = 16 \<Longrightarrow>
   \<exists>x0 x1 x2 x3 x4 x5 x6 x7 x8 x9 x10 x11 x12 x13 x14 x15.
     xs = [x0, x1, x2, x3, x4, x5, x6, x7, x8, x9, x10, x11, x12, x13, x14, x15]"
  by (simp add: numeral_eq_Suc length_Suc_conv) blast

lemma stateMatrixToBytes_bytesToStateMatrix:
  assumes "length b = 16"
  shows "stateMatrixToBytes (bytesToStateMatrix b) = b"
proof -
  from length16 [OF assms] obtain x0 x1 x2 x3 x4 x5 x6 x7 x8 x9 x10 x11 x12 x13 x14 x15
    where "b = [x0, x1, x2, x3, x4, x5, x6, x7, x8, x9, x10, x11, x12, x13, x14, x15]"
    by blast
  then show ?thesis
    by (simp add: stateMatrixToBytes_def bytesToStateMatrix_def matrix4_def cell_def js_nth_def)
qed

lemma is_state_bytesToStateMatrix:
  assumes "is_block b"
  shows "is_state (bytesToStateMatrix b)"
  unfolding bytesToStateMatrix_def
proof (rule is_state_matrix4)
  fix r c :: nat
  assume "r < 4" "c < 4"
  then have lt: "c * 4 + r < length b" using assms by (simp add: is_block_def)
  then have "b ! (c * 4 + r) \<in> set b" by (rule nth_mem)
  with assms have "b ! (c * 4 + r) \<noteq> None" unfolding is_block_def by metis
  with lt show "js_nth b (c * 4 + r) \<noteq> None" unfolding js_nth_def by simp
qed

lemma bytesToStateMatrix_stateMatrixToBytes:
  "is_state s \<Longrightarrow> bytesToStateMatrix (stateMatrixToBytes s) = s"
  by (erule is_stateE)
    (simp add: stateMatrixToBytes_def bytesToStateMatrix_def matrix4_def cell_def js_nth_def)

lemma is_block_stateMatrixToBytes: "is_state s \<Longrightarrow> is_block (stateMatrixToBytes s)"
  by (erule is_stateE) (simp add: stateMatrixToBytes_def cell_def is_block_def)

lemma is_block_bytes_of: "length bs = 16 \<Longrightarrow> is_block (bytes_of bs)"
  by (auto simp add: is_block_def bytes_of_def)

lemma decrypt_encrypt_block:
  assumes "is_block b"
  shows "stateMatrixToBytes (decState rks (bytesToStateMatrix
           (stateMatrixToBytes (encState rks (bytesToStateMatrix b))))) = b"
proof -
  have "bytesToStateMatrix (stateMatrixToBytes (encState rks (bytesToStateMatrix b))) =
        encState rks (bytesToStateMatrix b)"
    by (rule bytesToStateMatrix_stateMatrixToBytes) simp
  moreover have "decState rks (encState rks (bytesToStateMatrix b)) = bytesToStateMatrix b"
    using assms by (intro decState_encState is_state_bytesToStateMatrix)
  moreover have "stateMatrixToBytes (bytesToStateMatrix b) = b"
    using assms by (intro stateMatrixToBytes_bytesToStateMatrix) (simp add: is_block_def)
  ultimately show ?thesis by simp
qed

text \<open>C2: for every 32-byte key, with the round keys of \<open>expandKey\<close>, and every block of
  16 bytes, \<open>decryptBlock\<close> of the encrypted block is the block.\<close>

theorem block_roundtrip:
  assumes "length key = 32" and "length block = 16"
  shows "\<exists>e d. encryptBlock (bytes_of block) (expandKey (bytes_of key)) False = Inr e \<and>
           decryptBlock (encryptedBlock e) (expandKey (bytes_of key)) False = Inr d \<and>
           decryptedBlock d = bytes_of block"
  using decrypt_encrypt_block [OF is_block_bytes_of [OF assms(2)], of "expandKey (bytes_of key)"]
  by (simp add: encryptBlock_untracked decryptBlock_untracked)

theorem block_roundtrip_witness:
  "length (replicate 32 (7 :: byte)) = 32 \<and> length (replicate 16 (9 :: byte)) = 16 \<and>
   (\<exists>e d. encryptBlock (bytes_of (replicate 16 9)) (expandKey (bytes_of (replicate 32 7))) False
             = Inr e \<and>
           decryptBlock (encryptedBlock e) (expandKey (bytes_of (replicate 32 7))) False = Inr d \<and>
           decryptedBlock d = bytes_of (replicate 16 9))"
proof -
  have k: "length (replicate 32 (7 :: byte)) = 32" and b: "length (replicate 16 (9 :: byte)) = 16"
    by simp_all
  from k b block_roundtrip [OF k b] show ?thesis by blast
qed

section \<open>Text encryption and decryption\<close>

lemma encryptBlocks_done: "length data \<le> i \<Longrightarrow> encryptBlocks data rks i acc = Inr acc"
  by (subst encryptBlocks.simps) simp

lemma decryptBlocks_done: "length data \<le> i \<Longrightarrow> decryptBlocks data rks i acc = Inr acc"
  by (subst decryptBlocks.simps) simp

lemma slice_block:
  "length b = 16 \<or> rest = [] \<Longrightarrow> slice (pre @ b @ rest) (length pre) (length pre + 16) = take 16 b"
  by (auto simp add: slice_def)

lemma blocks_wf_Nil: "blocks_wf []"
  by (simp add: blocks_wf_def)

lemma blocks_wf_Cons:
  "blocks_wf (b # bs) =
    (0 < length b \<and> length b \<le> 16 \<and> (length b = 16 \<or> bs = []) \<and> blocks_wf bs)"
proof (cases "bs = []")
  case True
  then show ?thesis by (simp add: blocks_wf_def)
next
  case False
  then show ?thesis by (simp add: blocks_wf_def) blast
qed

lemma encryptBlocks_concat:
  assumes "blocks_wf bs"
  shows "encryptBlocks (pre @ concat bs) rks (length pre) acc =
         Inr (acc @ concat (map (encBlock rks) bs))"
  using assms
proof (induction bs arbitrary: pre acc)
  case Nil
  show ?case by (simp add: encryptBlocks_done)
next
  case (Cons b bs)
  from Cons.prems have b: "0 < length b" "length b \<le> 16" "length b = 16 \<or> bs = []"
    and bs: "blocks_wf bs"
    by (simp_all add: blocks_wf_Cons)
  have sl: "slice (pre @ b @ concat bs) (length pre) (length pre + 16) = b"
    using b slice_block [of b "concat bs" pre] by auto
  have step: "encryptBlocks (pre @ concat (b # bs)) rks (length pre) acc =
        encryptBlocks (pre @ concat (b # bs)) rks (length pre + 16) (acc @ encBlock rks b)"
    using b by (subst encryptBlocks.simps) (simp add: sl encryptBlock_untracked encBlock_def)
  show ?case
  proof (cases "bs = []")
    case True
    with b show ?thesis unfolding step by (simp add: encryptBlocks_done)
  next
    case False
    with b have len: "length b = 16" by simp
    have "encryptBlocks ((pre @ b) @ concat bs) rks (length (pre @ b)) (acc @ encBlock rks b) =
          Inr ((acc @ encBlock rks b) @ concat (map (encBlock rks) bs))"
      using bs by (rule Cons.IH)
    then show ?thesis unfolding step using len by simp
  qed
qed

lemma decryptBlocks_concat:
  assumes "blocks_wf bs"
  shows "decryptBlocks (pre @ concat bs) rks (length pre) acc =
         Inr (acc @ concat (map (decBlock rks) bs))"
  using assms
proof (induction bs arbitrary: pre acc)
  case Nil
  show ?case by (simp add: decryptBlocks_done)
next
  case (Cons b bs)
  from Cons.prems have b: "0 < length b" "length b \<le> 16" "length b = 16 \<or> bs = []"
    and bs: "blocks_wf bs"
    by (simp_all add: blocks_wf_Cons)
  have sl: "slice (pre @ b @ concat bs) (length pre) (length pre + 16) = b"
    using b slice_block [of b "concat bs" pre] by auto
  have step: "decryptBlocks (pre @ concat (b # bs)) rks (length pre) acc =
        decryptBlocks (pre @ concat (b # bs)) rks (length pre + 16) (acc @ decBlock rks b)"
    using b by (subst decryptBlocks.simps) (simp add: sl decryptBlock_untracked decBlock_def)
  show ?case
  proof (cases "bs = []")
    case True
    with b show ?thesis unfolding step by (simp add: decryptBlocks_done)
  next
    case False
    with b have len: "length b = 16" by simp
    have "decryptBlocks ((pre @ b) @ concat bs) rks (length (pre @ b)) (acc @ decBlock rks b) =
          Inr ((acc @ decBlock rks b) @ concat (map (decBlock rks) bs))"
      using bs by (rule Cons.IH)
    then show ?thesis unfolding step using len by simp
  qed
qed

lemma concat_blocks16: "concat (blocks16 xs) = xs"
proof (induction xs rule: blocks16.induct)
  case (1 xs)
  then show ?case by (subst blocks16.simps) simp
qed

lemma blocks16_wf: "blocks_wf (blocks16 xs)"
proof (induction xs rule: blocks16.induct)
  case (1 xs)
  show ?case
  proof (cases "xs = []")
    case True
    then show ?thesis by (subst blocks16.simps) (simp add: blocks_wf_Nil)
  next
    case False
    have rest: "blocks16 (drop 16 xs) = [] \<longleftrightarrow> length xs \<le> 16"
      by (subst blocks16.simps) simp
    from False 1 have wf: "blocks_wf (blocks16 (drop 16 xs))" by simp
    have "blocks16 xs = take 16 xs # blocks16 (drop 16 xs)"
      using False by (subst blocks16.simps) simp
    moreover have "blocks_wf (take 16 xs # blocks16 (drop 16 xs))"
      unfolding blocks_wf_Cons rest using False wf by (simp add: min_def)
    ultimately show ?thesis by simp
  qed
qed

lemma encryptBlocks_all:
  "encryptBlocks data rks 0 [] = Inr (concat (map (encBlock rks) (blocks16 data)))"
  using encryptBlocks_concat [OF blocks16_wf, of "[]" data rks "[]"]
  by (simp add: concat_blocks16)

lemma decryptBlocks_all:
  "decryptBlocks data rks 0 [] = Inr (concat (map (decBlock rks) (blocks16 data)))"
  using decryptBlocks_concat [OF blocks16_wf, of "[]" data rks "[]"]
  by (simp add: concat_blocks16)

lemma blocks_wf_full: "\<forall>b \<in> set bs. length b = 16 \<Longrightarrow> blocks_wf bs"
  by (auto simp add: blocks_wf_def dest: in_set_butlastD)

lemma blocks16_is_block:
  "length xs mod 16 = 0 \<Longrightarrow> None \<notin> set xs \<Longrightarrow> \<forall>b \<in> set (blocks16 xs). is_block b"
proof (induction xs rule: blocks16.induct)
  case (1 xs)
  show ?case
  proof (cases "xs = []")
    case True
    then show ?thesis by (subst blocks16.simps) simp
  next
    case False
    with 1(2) have len: "16 \<le> length xs" by (cases "length xs < 16") auto
    have l: "length (drop 16 xs) mod 16 = 0"
      using 1(2) len by (simp add: mod_simps) presburger
    have n: "None \<notin> set (drop 16 xs)" using 1(3) by (auto dest: in_set_dropD)
    have rest: "\<forall>b \<in> set (blocks16 (drop 16 xs)). is_block b"
      by (rule 1(1) [OF False l n])
    have "is_block (take 16 xs)"
      using len 1(3) by (auto simp add: is_block_def dest: in_set_takeD)
    with rest False show ?thesis by (subst blocks16.simps) simp
  qed
qed

lemma is_block_encBlock: "is_block (encBlock rks b)"
  unfolding encBlock_def by (rule is_block_stateMatrixToBytes) simp

lemma decBlock_encBlock: "is_block b \<Longrightarrow> decBlock rks (encBlock rks b) = b"
  unfolding decBlock_def encBlock_def by (rule decrypt_encrypt_block)

lemma decrypt_encrypt_blocks:
  assumes "\<forall>b \<in> set bs. is_block b"
  shows "decryptBlocks (concat (map (encBlock rks) bs)) rks 0 [] = Inr (concat bs)"
proof -
  have "blocks_wf (map (encBlock rks) bs)"
    using is_block_encBlock by (intro blocks_wf_full) (auto simp add: is_block_def)
  from decryptBlocks_concat [OF this, of "[]" rks "[]"]
  have "decryptBlocks (concat (map (encBlock rks) bs)) rks 0 [] =
        Inr (concat (map (\<lambda>b. decBlock rks (encBlock rks b)) bs))"
    by (simp add: comp_def)
  moreover have "map (\<lambda>b. decBlock rks (encBlock rks b)) bs = bs"
    using assms by (simp add: decBlock_encBlock map_idI)
  ultimately show ?thesis by simp
qed

lemma formatCells_ok: "None \<notin> set row \<Longrightarrow> \<exists>cells. formatCells row = Inr cells"
proof (induction row)
  case Nil
  show ?case by simp
next
  case (Cons v row)
  then obtain b cells where "v = Some b" "formatCells row = Inr cells" by (cases v) auto
  then show ?case by simp
qed

lemma formatRows_ok: "\<forall>row \<in> set s. None \<notin> set row \<Longrightarrow> \<exists>rows. formatRows s = Inr rows"
proof (induction s)
  case Nil
  show ?case by simp
next
  case (Cons row s)
  then obtain cells rows where "formatCells row = Inr cells" "formatRows s = Inr rows"
    using formatCells_ok [of row] by auto
  then show ?case by simp
qed

lemma formatStateMatrix_ok: "is_state s \<Longrightarrow> \<exists>str. formatStateMatrix s = Inr str"
  using formatRows_ok [of s] by (auto simp add: formatStateMatrix_def is_state_def)

lemma formatRoundKeys_ok:
  "\<forall>rk \<in> set rks. is_state rk \<Longrightarrow> \<exists>txts. formatRoundKeys rks = Inr txts"
proof (induction rks)
  case Nil
  show ?case by simp
next
  case (Cons rk rks)
  then obtain str txts where "formatStateMatrix rk = Inr str" "formatRoundKeys rks = Inr txts"
    using formatStateMatrix_ok [of rk] by auto
  then show ?case by simp
qed

lemma expandKey_states:
  assumes "length key = 32"
  shows "\<forall>rk \<in> set (expandKey (bytes_of key)). is_state rk"
proof
  fix rk assume "rk \<in> set (expandKey (bytes_of key))"
  then obtain r where r: "r < 15" "rk = expandKey (bytes_of key) ! r"
    by (auto simp add: in_set_conv_nth length_expandKey)
  show "is_state rk"
    unfolding r(2) expandKey_spec [OF assms r(1)] by (rule is_state_matrix4) simp
qed

lemma encryptText_untracked:
  assumes "formatRoundKeys (expandKey key) = Inr txts"
  shows "encryptText plain key False =
    Inr \<lparr>cipherBytes = concat (map (encBlock (expandKey key)) (blocks16 (padData plain))),
         encryptTextRoundDetails = [], encryptPerRound = None, encryptKeyExpansion = txts\<rparr>"
  by (simp add: encryptText_def encryptBlocks_all assms)

lemma decryptText_untracked:
  assumes "formatRoundKeys (expandKey key) = Inr txts"
  shows "decryptText cipher key False =
    bind_err (unpadData (concat (map (decBlock (expandKey key)) (blocks16 cipher)))) (\<lambda>plain.
    Inr \<lparr>plainBytes = plain, decryptTextRoundDetails = [], decryptPerRound = None,
         decryptKeyExpansion = txts\<rparr>)"
  by (cases "unpadData (concat (map (decBlock (expandKey key)) (blocks16 cipher)))")
    (simp_all add: decryptText_def decryptBlocks_all assms)

text \<open>C1: for every 32-byte key and every array of bytes, of any length, \<open>encryptText\<close>
  returns a result, \<open>decryptText\<close> of its \<open>cipherBytes\<close> returns a result, and the
  \<open>plainBytes\<close> of that are the array (\<open>trackRounds\<close> false on both sides).\<close>

theorem stream_roundtrip:
  assumes "length key = 32"
  shows "\<exists>e d. encryptText (bytes_of bs) (bytes_of key) False = Inr e \<and>
           decryptText (cipherBytes e) (bytes_of key) False = Inr d \<and>
           plainBytes d = bytes_of bs"
proof -
  let ?rks = "expandKey (bytes_of key)"
  let ?padded = "padData (bytes_of bs)"
  obtain txts where txts: "formatRoundKeys ?rks = Inr txts"
    using formatRoundKeys_ok [OF expandKey_states [OF assms]] by blast
  have len: "length ?padded mod 16 = 0"
    unfolding padData_eq by (simp add: mod_simps) presburger
  have "None \<notin> set ?padded" unfolding padData_eq by (auto simp add: bytes_of_def)
  with len have blocks: "\<forall>b \<in> set (blocks16 ?padded). is_block b"
    by (rule blocks16_is_block)
  have dec: "decryptBlocks (concat (map (encBlock ?rks) (blocks16 ?padded))) ?rks 0 [] =
             Inr ?padded"
    using decrypt_encrypt_blocks [OF blocks] by (simp add: concat_blocks16)
  have unpad: "unpadData ?padded = Inr (bytes_of bs)"
    unfolding padData_eq by (rule unpadData_pad) simp_all
  show ?thesis
    using dec unpad
    by (simp add: encryptText_untracked [OF txts] decryptText_def txts)
qed

theorem stream_roundtrip_witness:
  "length (replicate 32 (3 :: byte)) = 32 \<and>
   (\<exists>e d. encryptText (bytes_of [1, 2, 3]) (bytes_of (replicate 32 3)) False = Inr e \<and>
           decryptText (cipherBytes e) (bytes_of (replicate 32 3)) False = Inr d \<and>
           plainBytes d = bytes_of [1, 2, 3])"
proof -
  have k: "length (replicate 32 (3 :: byte)) = 32" by simp
  from k stream_roundtrip [OF k, of "[1, 2, 3]"] show ?thesis by blast
qed

section \<open>Inputs that are not checked\<close>

lemma length_parsePairs: "length (parsePairs s) = (length s + 1) div 2"
  by (induction s rule: parsePairs.induct) simp_all

lemma parsePairs_defined: "None \<notin> set (parsePairs s)"
  by (induction s rule: parsePairs.induct) simp_all

lemma blocks16_Nil: "blocks16 [] = []"
  by (subst blocks16.simps) simp

lemma decryptText_empty_untracked:
  assumes "length key = 32"
  shows "\<exists>d. decryptText [] (bytes_of key) False = Inr d \<and> plainBytes d = []"
proof -
  obtain strs where "formatRoundKeys (expandKey (bytes_of key)) = Inr strs"
    using formatRoundKeys_ok [OF expandKey_states [OF assms]] by blast
  then show ?thesis
    by (simp add: decryptText_untracked blocks16_Nil unpadData_def)
qed

lemma unpadData_error: "unpadData data = Inl e \<Longrightarrow> e = InvalidPadding"
  by (auto simp add: unpadData_def split: if_splits option.splits)

lemma decryptText_untracked_error:
  assumes "length key = 32"
  shows "decryptText cipher (bytes_of key) False \<noteq> Inl TypeError"
proof -
  obtain strs where strs: "formatRoundKeys (expandKey (bytes_of key)) = Inr strs"
    using formatRoundKeys_ok [OF expandKey_states [OF assms]] by blast
  show ?thesis
    unfolding decryptText_untracked [OF strs]
    by (cases "unpadData (concat (map (decBlock (expandKey (bytes_of key))) (blocks16 cipher)))")
      (auto dest: unpadData_error)
qed

lemma ToInt32_zero_ext:
  "ToInt32 (js_nth (b @ replicate m (Some 0)) i) = ToInt32 (js_nth b i)"
  by (simp add: js_nth_def ToInt32_def nth_append)

lemma cell_matrix4:
  assumes "r < 4" "c < 4"
  shows "cell (matrix4 f) r c = f r c"
proof -
  have "r = 0 \<or> r = 1 \<or> r = 2 \<or> r = 3" "c = 0 \<or> c = 1 \<or> c = 2 \<or> c = 3"
    using assms by auto
  then show ?thesis by (auto simp add: cell_def matrix4_def)
qed

lemma addRoundKey_zero_ext:
  "addRoundKey (bytesToStateMatrix (b @ replicate m (Some 0))) k =
   addRoundKey (bytesToStateMatrix b) k"
  unfolding addRoundKey_def bytesToStateMatrix_def
  by (rule matrix4_cong) (simp add: cell_matrix4 js_xor_def ToInt32_zero_ext)

lemma decBlock_zero_ext: "decBlock rks (b @ replicate m (Some 0)) = decBlock rks b"
  by (simp add: decBlock_def decState_def addRoundKey_zero_ext)

lemma blocks16_short: "xs \<noteq> [] \<Longrightarrow> length xs \<le> 16 \<Longrightarrow> blocks16 xs = [xs]"
  by (subst blocks16.simps) (simp add: blocks16_Nil)

lemma blocks16_long:
  "16 \<le> length xs \<Longrightarrow> blocks16 (xs @ ys) = take 16 xs # blocks16 (drop 16 xs @ ys)"
  by (subst blocks16.simps) auto

lemma decBlocks_zero_ext:
  "map (decBlock rks) (blocks16 (c @ replicate ((16 - length c mod 16) mod 16) (Some 0))) =
   map (decBlock rks) (blocks16 c)"
proof (induction c rule: blocks16.induct)
  case (1 c)
  let ?m = "(16 - length c mod 16) mod 16"
  show ?case
  proof (cases "c = []")
    case True
    then show ?thesis by simp
  next
    case False
    show ?thesis
    proof (cases "length c < 16")
      case True
      then have m: "?m = 16 - length c" using False by simp
      have "blocks16 (c @ replicate (16 - length c) (Some 0)) = [c @ replicate (16 - length c) (Some 0)]"
        using True by (intro blocks16_short) simp_all
      moreover have "blocks16 c = [c]" using True False by (intro blocks16_short) simp_all
      ultimately show ?thesis unfolding m by (simp add: decBlock_zero_ext)
    next
      case ge: False
      then have len: "16 \<le> length c" by simp
      have m: "(16 - length (drop 16 c) mod 16) mod 16 = ?m"
        using len by (simp add: mod_simps le_mod_geq)
      have "blocks16 (c @ replicate ?m (Some 0)) =
            take 16 c # blocks16 (drop 16 c @ replicate ?m (Some 0))"
        using len by (rule blocks16_long)
      moreover have "blocks16 c = take 16 c # blocks16 (drop 16 c)"
        using blocks16_long [OF len, of "[]"] by simp
      ultimately show ?thesis using 1 [OF False] unfolding m by simp
    qed
  qed
qed

lemma decryptText_zero_ext:
  "decryptText (cipher @ replicate ((16 - length cipher mod 16) mod 16) (Some 0)) key False =
   decryptText cipher key False"
  by (simp add: decryptText_def decryptBlocks_all decBlocks_zero_ext)

lemma parsePairs_nth_pair:
  "2 * i + 1 < length ds \<Longrightarrow>
   parsePairs ds ! i =
     Some (of_nat (hexDigitValue (ds ! (2 * i)) * 16 + hexDigitValue (ds ! (2 * i + 1))))"
proof (induction ds arbitrary: i rule: parsePairs.induct)
  case 1
  then show ?case by simp
next
  case (2 c)
  then show ?case by simp
next
  case (3 c d rest)
  show ?case
  proof (cases i)
    case 0
    then show ?thesis by simp
  next
    case (Suc j)
    with 3 show ?thesis by simp
  qed
qed

lemma parsePairs_nth_last:
  "2 * i + 1 = length ds \<Longrightarrow>
   parsePairs ds ! i = Some (of_nat (hexDigitValue (ds ! (2 * i))))"
proof (induction ds arbitrary: i rule: parsePairs.induct)
  case 1
  then show ?case by simp
next
  case (2 c)
  then show ?case by simp
next
  case (3 c d rest)
  show ?case
  proof (cases i)
    case 0
    with 3 show ?thesis by simp
  next
    case (Suc j)
    with 3(2) have l: "2 * j + 1 = length rest" by simp
    have "parsePairs (c # d # rest) ! i = parsePairs rest ! j" using Suc by simp
    also have "\<dots> = Some (of_nat (hexDigitValue (rest ! (2 * j))))" using l by (rule 3(1))
    also have "rest ! (2 * j) = (c # d # rest) ! (2 * i)" using Suc by simp
    finally show ?thesis .
  qed
qed

lemma hexDigitValue_digits:
  "map hexDigitValue ''0123456789abcdefABCDEF'' =
     [0, 1, 2, 3, 4, 5, 6, 7, 8, 9, 10, 11, 12, 13, 14, 15, 10, 11, 12, 13, 14, 15]"
  by (simp add: hexDigitValue_def)

lemma isHexDigit_digits: "isHexDigit c = (c \<in> set ''0123456789abcdefABCDEF'')"
proof
  assume "isHexDigit c"
  then have "(of_char c :: nat) \<in> {48, 49, 50, 51, 52, 53, 54, 55, 56, 57,
      97, 98, 99, 100, 101, 102, 65, 66, 67, 68, 69, 70}"
    unfolding isHexDigit_def Let_def by (simp add: insert_iff) arith
  then show "c \<in> set ''0123456789abcdefABCDEF''"
    by (simp del: of_char_eq_iff add: of_char_eq_iff [where ?'a = nat, symmetric])
next
  assume "c \<in> set ''0123456789abcdefABCDEF''"
  then show "isHexDigit c" by (auto simp add: isHexDigit_def)
qed

text \<open>C8, as amended: neither function checks its input. \<open>hexToBytes\<close> drops the
  characters that are not hex digits and never fails: the digits are read two at a time,
  byte \<open>i\<close> being 16 times the value of digit \<open>2i\<close> plus the value of digit \<open>2i + 1\<close>,
  and a last single digit is read alone as a byte of its own value, so \<open>n\<close> digits give
  \<open>(n + 1) div 2\<close> bytes. \<open>decryptText\<close> (\<open>trackRounds\<close> false, 32-byte key) returns empty
  \<open>plainBytes\<close> for the empty input and never fails with a TypeError; an input whose
  length is not a multiple of 16 gives what the input extended with zero bytes to the next
  multiple of 16 gives.\<close>

theorem no_input_validation:
  "hexToBytes s = hexToBytes (filter isHexDigit s) \<and>
   length (hexToBytes s) = (length (filter isHexDigit s) + 1) div 2 \<and>
   None \<notin> set (hexToBytes s) \<and>
   (\<forall>i. 2 * i + 1 < length (filter isHexDigit s) \<longrightarrow>
      hexToBytes s ! i =
        Some (of_nat (hexDigitValue (filter isHexDigit s ! (2 * i)) * 16 +
                      hexDigitValue (filter isHexDigit s ! (2 * i + 1))))) \<and>
   (\<forall>i. 2 * i + 1 = length (filter isHexDigit s) \<longrightarrow>
      hexToBytes s ! i = Some (of_nat (hexDigitValue (filter isHexDigit s ! (2 * i))))) \<and>
   (\<forall>c. isHexDigit c = (c \<in> set ''0123456789abcdefABCDEF'')) \<and>
   map hexDigitValue ''0123456789abcdefABCDEF'' =
     [0, 1, 2, 3, 4, 5, 6, 7, 8, 9, 10, 11, 12, 13, 14, 15, 10, 11, 12, 13, 14, 15] \<and>
   (length key = 32 \<longrightarrow>
      (\<exists>d. decryptText [] (bytes_of key) False = Inr d \<and> plainBytes d = []) \<and>
      decryptText cipher (bytes_of key) False \<noteq> Inl TypeError) \<and>
   decryptText cipher k False =
     decryptText (cipher @ replicate ((16 - length cipher mod 16) mod 16) (Some 0)) k False"
proof -
  have hex: "hexToBytes s = parsePairs (filter isHexDigit s)"
    by (simp add: hexToBytes_def)
  have "hexToBytes s = hexToBytes (filter isHexDigit s)" by (simp add: hexToBytes_def)
  moreover have "length (hexToBytes s) = (length (filter isHexDigit s) + 1) div 2"
    unfolding hex by (rule length_parsePairs)
  moreover have "None \<notin> set (hexToBytes s)"
    unfolding hex by (rule parsePairs_defined)
  moreover note parsePairs_nth_pair [of _ "filter isHexDigit s", folded hex]
    parsePairs_nth_last [of _ "filter isHexDigit s", folded hex]
    isHexDigit_digits hexDigitValue_digits
    decryptText_empty_untracked [of key] decryptText_untracked_error [of key cipher]
    decryptText_zero_ext [of cipher k, symmetric]
  ultimately show ?thesis by blast
qed

theorem no_input_validation_witness:
  "length (replicate 32 (0 :: byte)) = 32 \<and>
   (\<exists>d. decryptText [] (bytes_of (replicate 32 0)) False = Inr d \<and> plainBytes d = []) \<and>
   decryptText [Some 1] (bytes_of (replicate 32 0)) False \<noteq> Inl TypeError \<and>
   2 * 0 + 1 < length (filter isHexDigit ''a-bc'') \<and>
   hexToBytes ''a-bc'' ! 0 = Some 0xab \<and>
   2 * 1 + 1 = length (filter isHexDigit ''a-bc'') \<and>
   hexToBytes ''a-bc'' ! 1 = Some 0x0c"
proof -
  have k: "length (replicate 32 (0 :: byte)) = 32" by simp
  have f: "filter isHexDigit ''a-bc'' = ''abc''" by (simp add: isHexDigit_def)
  have v: "hexDigitValue CHR ''a'' = 10" "hexDigitValue CHR ''b'' = 11"
    "hexDigitValue CHR ''c'' = 12"
    by (simp_all add: hexDigitValue_def)
  have p: "2 * 0 + 1 < length (filter isHexDigit ''a-bc'')"
    and l: "2 * 1 + 1 = length (filter isHexDigit ''a-bc'')"
    unfolding f by simp_all
  note t = no_input_validation [of "''a-bc''" "replicate 32 0" "[Some 1]"]
  from t p have "hexToBytes ''a-bc'' ! 0 =
      Some (of_nat (hexDigitValue (filter isHexDigit ''a-bc'' ! (2 * 0)) * 16 +
                    hexDigitValue (filter isHexDigit ''a-bc'' ! (2 * 0 + 1))))"
    by blast
  then have b0: "hexToBytes ''a-bc'' ! 0 = Some 0xab" unfolding f by (simp add: v)
  from t l have "hexToBytes ''a-bc'' ! 1 =
      Some (of_nat (hexDigitValue (filter isHexDigit ''a-bc'' ! (2 * 1))))"
    by blast
  then have b1: "hexToBytes ''a-bc'' ! 1 = Some 0x0c" unfolding f by (simp add: v)
  from k t p l b0 b1 show ?thesis by blast
qed

text \<open>C8 as stated fails: three hex digits are decoded to two bytes with no error, and the
  empty input is decrypted to empty \<open>plainBytes\<close> with no error.\<close>

theorem input_validation_counterexample:
  "hexToBytes ''abc'' = [Some 0xab, Some 0x0c] \<and>
   map_sum id plainBytes (decryptText [] (bytes_of (replicate 32 0)) False) = Inr []"
proof -
  have "hexToBytes ''abc'' = [Some 0xab, Some 0x0c]"
    by (simp add: hexToBytes_def isHexDigit_def hexDigitValue_def)
  moreover have "map_sum id plainBytes (decryptText [] (bytes_of (replicate 32 0)) False) = Inr []"
    using decryptText_empty_untracked [of "replicate 32 0"] by auto
  ultimately show ?thesis by simp
qed

lemma initBlockStates_Nil: "initBlockStates [] i acc = acc"
  by (subst initBlockStates.simps) simp

lemma decryptAllRounds_Nil: "\<exists>p'. decryptAllRounds rks r [] p = ([], p')"
proof (induction r arbitrary: p)
  case 0
  show ?case by (subst decryptAllRounds.simps) simp
next
  case (Suc r)
  show ?case
    by (subst decryptAllRounds.simps) (simp add: collectBytes_def Suc)
qed

lemma decryptBlock_empty_tracked: "decryptBlock [] rks True = Inl TypeError"
  by (simp add: decryptBlock_def pushDetail_def bytesToStateMatrix_def matrix4_def js_nth_def
      formatStateMatrix_def)

lemma decryptText_empty_tracked: "decryptText [] key True = Inl TypeError"
proof -
  obtain p' where "decryptAllRounds (expandKey key) (NUMBER_OF_ROUNDS - 1) []
      [NUMBER_OF_ROUNDS \<mapsto> []] = ([], p')"
    using decryptAllRounds_Nil by blast
  then show ?thesis
    by (simp add: decryptText_def decryptTracked_def initBlockStates_Nil collectBytes_def
        unpadData_def slice_def decryptBlock_empty_tracked)
qed

text \<open>C9 fails on the empty input of \<open>decryptText\<close>: with \<open>trackRounds\<close> true the call for
  the round details of the first block formats a state of \<open>undefined\<close> cells and throws a
  TypeError, with \<open>trackRounds\<close> false the result has empty \<open>plainBytes\<close>.\<close>

theorem tracking_changes_empty_decrypt:
  "decryptText [] (bytes_of (replicate 32 0)) True = Inl TypeError \<and>
   map_sum id plainBytes (decryptText [] (bytes_of (replicate 32 0)) False) = Inr []"
proof -
  have "map_sum id plainBytes (decryptText [] (bytes_of (replicate 32 0)) False) = Inr []"
    using decryptText_empty_untracked [of "replicate 32 0"] by auto
  then show ?thesis by (simp add: decryptText_empty_tracked)
qed

section \<open>The tracking paths\<close>

text \<open>With tracking, \<open>encryptText\<close> and \<open>decryptText\<close> run every round on all blocks
  and then call the block function on the first block for its round details. The bytes
  are those of the path without tracking; the call for the first block succeeds when
  that block has 16 bytes.\<close>

lemma initBlockStates_eq:
  "initBlockStates data i acc = acc @ map bytesToStateMatrix (blocks16 (drop (i * 16) data))"
proof (induction data i acc rule: initBlockStates.induct)
  case (1 data i acc)
  show ?case
  proof (cases "i * 16 < length data")
    case True
    then have ne: "drop (i * 16) data \<noteq> []" by simp
    have "blocks16 (drop (i * 16) data) =
          take 16 (drop (i * 16) data) # blocks16 (drop ((i + 1) * 16) data)"
      using ne by (subst blocks16.simps) (simp add: add.commute)
    with True 1 show ?thesis
      by (subst initBlockStates.simps) (simp add: slice_def)
  next
    case False
    then show ?thesis by (subst initBlockStates.simps) (simp add: blocks16_Nil)
  qed
qed

lemma encryptAllRounds_fst:
  "fst (encryptAllRounds rks r sts p) =
   map (\<lambda>s. foldl (encRound rks) s [r..<NUMBER_OF_ROUNDS]) sts"
proof (induction "NUMBER_OF_ROUNDS - r" arbitrary: r sts p)
  case 0
  then show ?case by (subst encryptAllRounds.simps) simp
next
  case (Suc n)
  then have lt: "r < NUMBER_OF_ROUNDS" and n: "n = NUMBER_OF_ROUNDS - (r + 1)" by simp_all
  show ?case
    using lt Suc(1) [OF n]
    by (subst encryptAllRounds.simps) (simp add: upt_rec [of r] encRound_def Let_def comp_def)
qed

lemma decryptAllRounds_fst:
  "fst (decryptAllRounds rks r sts p) =
   map (\<lambda>s. foldl (decRound rks) s (rev [1..<Suc r])) sts"
proof (induction r arbitrary: sts p)
  case 0
  show ?case by (subst decryptAllRounds.simps) simp
next
  case (Suc r)
  have "fst (decryptAllRounds rks (Suc r) sts p) =
        fst (decryptAllRounds rks r (map (\<lambda>s. decRound rks s (Suc r)) sts)
          (p(Suc r \<mapsto> collectBytes (map (\<lambda>s. decRound rks s (Suc r)) sts))))"
    by (subst decryptAllRounds.simps) (simp add: decRound_def Let_def)
  then show ?case unfolding Suc by (simp add: comp_def)
qed

lemma encryptTracked_fst:
  "fst (encryptTracked data rks) = concat (map (encBlock rks) (blocks16 data))"
  by (simp add: encryptTracked_def initBlockStates_eq Let_def prod.case_eq_if
      encryptAllRounds_fst collectBytes_def encBlock_def [abs_def] encState_def
      NUMBER_OF_ROUNDS_def comp_def)

lemma decryptTracked_fst:
  "fst (decryptTracked data rks) = concat (map (decBlock rks) (blocks16 data))"
  by (simp add: decryptTracked_def initBlockStates_eq Let_def prod.case_eq_if
      decryptAllRounds_fst collectBytes_def decBlock_def [abs_def] decState_def
      NUMBER_OF_ROUNDS_def comp_def)


lemma is_state_inverseMixColumns [simp]: "is_state (inverseMixColumns s)"
  unfolding inverseMixColumns_def by (rule is_state_matrix4) (simp add: inverseMixColumn_def Let_def)

lemma is_state_inverseSubstituteBytes:
  "is_state s \<Longrightarrow> is_state (inverseSubstituteBytes s)"
  by (erule is_stateE)
    (simp add: inverseSubstituteBytes_def matrix4_def cell_def table_at_INVERSE_S_BOX is_state_def)

lemma is_state_inverseShiftRows: "is_state s \<Longrightarrow> is_state (inverseShiftRows s)"
  by (erule is_stateE) (simp add: inverseShiftRows_def cell_def is_state_def)

lemma pushDetail_ok:
  assumes "is_state s" and "\<And>k. rk = Some k \<Longrightarrow> is_state k"
  shows "\<exists>d'. pushDetail t d r n s rk = Inr d'"
proof -
  obtain str where str: "formatStateMatrix s = Inr str"
    using formatStateMatrix_ok [OF assms(1)] by blast
  show ?thesis
  proof (cases rk)
    case None
    with str show ?thesis by (simp add: pushDetail_def)
  next
    case (Some k)
    then obtain kstr where "formatStateMatrix k = Inr kstr"
      using formatStateMatrix_ok [OF assms(2)] by blast
    with str Some show ?thesis by (simp add: pushDetail_def)
  qed
qed

lemma pushDetail_ok_None: "is_state s \<Longrightarrow> \<exists>d'. pushDetail t d r n s None = Inr d'"
  by (rule pushDetail_ok) simp_all

lemma pushDetail_ok_Some:
  "is_state s \<Longrightarrow> is_state k \<Longrightarrow> \<exists>d'. pushDetail t d r n s (Some k) = Inr d'"
  by (rule pushDetail_ok) simp_all

lemma encryptRounds_ok:
  assumes rks: "\<And>i. i < 15 \<Longrightarrow> is_state (rks ! i)"
  shows "is_state s \<Longrightarrow> \<exists>s' d'. encryptRounds rks t r s d = Inr (s', d') \<and> is_state s'"
proof (induction "NUMBER_OF_ROUNDS - r" arbitrary: r s d)
  case 0
  then show ?case by (subst encryptRounds.simps) simp
next
  case (Suc n)
  then have lt: "r < NUMBER_OF_ROUNDS" and n: "n = NUMBER_OF_ROUNDS - (r + 1)" by simp_all
  then have rk: "is_state (rks ! r)" by (intro rks) (simp add: NUMBER_OF_ROUNDS_def)
  let ?s1 = "substituteBytes s"
  let ?s2 = "shiftRows ?s1"
  let ?s3 = "mixColumns ?s2"
  let ?s4 = "addRoundKey ?s3 (rks ! r)"
  have st: "is_state ?s1" "is_state ?s2"
    using Suc.prems by (simp_all add: is_state_substituteBytes is_state_shiftRows)
  obtain d1 where d1: "pushDetail t d r ''Start of Round'' s None = Inr d1"
    using pushDetail_ok_None [OF Suc.prems] by blast
  obtain d2 where d2: "pushDetail t d1 r ''After SubBytes'' ?s1 None = Inr d2"
    using pushDetail_ok_None [OF st(1)] by blast
  obtain d3 where d3: "pushDetail t d2 r ''After ShiftRows'' ?s2 None = Inr d3"
    using pushDetail_ok_None [OF st(2)] by blast
  obtain d4 where d4: "pushDetail t d3 r ''After MixColumns'' ?s3 None = Inr d4"
    using pushDetail_ok_None [OF is_state_mixColumns] by blast
  obtain d5 where d5: "pushDetail t d4 r ''After AddRoundKey'' ?s4 (Some (rks ! r)) = Inr d5"
    using pushDetail_ok_Some [OF is_state_addRoundKey rk] by blast
  have "encryptRounds rks t r s d = encryptRounds rks t (r + 1) ?s4 d5"
    using lt by (subst encryptRounds.simps) (simp add: d1 d2 d3 d4 d5)
  moreover have "\<exists>s' d'. encryptRounds rks t (r + 1) ?s4 d5 = Inr (s', d') \<and> is_state s'"
    using n by (rule Suc(1)) simp
  ultimately show ?case by simp
qed

lemma decryptRounds_ok:
  assumes rks: "\<And>i. i < 15 \<Longrightarrow> is_state (rks ! i)"
  shows "is_state s \<Longrightarrow> r < 15 \<Longrightarrow>
    \<exists>s' d'. decryptRounds rks t r s d = Inr (s', d') \<and> is_state s'"
proof (induction r arbitrary: s d)
  case 0
  then show ?case by (subst decryptRounds.simps) simp
next
  case (Suc r)
  then have rk: "is_state (rks ! Suc r)" by (intro rks)
  let ?s1 = "inverseShiftRows s"
  let ?s2 = "inverseSubstituteBytes ?s1"
  let ?s3 = "addRoundKey ?s2 (rks ! Suc r)"
  let ?s4 = "inverseMixColumns ?s3"
  have st: "is_state ?s1" "is_state ?s2"
    using Suc.prems by (simp_all add: is_state_inverseSubstituteBytes is_state_inverseShiftRows)
  obtain d1 where d1: "pushDetail t d (Suc r) ''Start of Round'' s None = Inr d1"
    using pushDetail_ok_None [OF Suc.prems(1)] by blast
  obtain d2 where d2: "pushDetail t d1 (Suc r) ''After InverseShiftRows'' ?s1 None = Inr d2"
    using pushDetail_ok_None [OF st(1)] by blast
  obtain d3 where d3: "pushDetail t d2 (Suc r) ''After InverseSubBytes'' ?s2 None = Inr d3"
    using pushDetail_ok_None [OF st(2)] by blast
  obtain d4 where d4:
    "pushDetail t d3 (Suc r) ''After AddRoundKey'' ?s3 (Some (rks ! Suc r)) = Inr d4"
    using pushDetail_ok_Some [OF is_state_addRoundKey rk] by blast
  obtain d5 where d5: "pushDetail t d4 (Suc r) ''After InverseMixColumns'' ?s4 None = Inr d5"
    using pushDetail_ok_None [OF is_state_inverseMixColumns] by blast
  have "decryptRounds rks t (Suc r) s d = decryptRounds rks t r ?s4 d5"
    by (subst decryptRounds.simps) (simp add: d1 d2 d3 d4 d5)
  moreover have "\<exists>s' d'. decryptRounds rks t r ?s4 d5 = Inr (s', d') \<and> is_state s'"
    using Suc.prems by (intro Suc.IH) simp_all
  ultimately show ?case by simp
qed


lemma encryptBlock_ok:
  assumes rks: "\<And>i. i < 15 \<Longrightarrow> is_state (rks ! i)" and b: "is_block b"
  shows "\<exists>res. encryptBlock b rks t = Inr res"
proof -
  let ?s0 = "bytesToStateMatrix b"
  let ?s1 = "addRoundKey ?s0 (rks ! 0)"
  have s0: "is_state ?s0" using b by (rule is_state_bytesToStateMatrix)
  have rk0: "is_state (rks ! 0)" and rk14: "is_state (rks ! NUMBER_OF_ROUNDS)"
    by (simp_all add: rks NUMBER_OF_ROUNDS_def)
  obtain d1 where d1: "pushDetail t [] 0 ''Initial State'' ?s0 None = Inr d1"
    using pushDetail_ok_None [OF s0] by blast
  obtain d2 where d2: "pushDetail t d1 0 ''After AddRoundKey'' ?s1 (Some (rks ! 0)) = Inr d2"
    using pushDetail_ok_Some [OF is_state_addRoundKey rk0] by blast
  obtain s2 d3 where r: "encryptRounds rks t 1 ?s1 d2 = Inr (s2, d3)" and s2: "is_state s2"
    using encryptRounds_ok [OF rks is_state_addRoundKey] by blast
  let ?s3 = "substituteBytes s2"
  let ?s4 = "shiftRows ?s3"
  let ?s5 = "addRoundKey ?s4 (rks ! NUMBER_OF_ROUNDS)"
  have st: "is_state ?s3" "is_state ?s4"
    using s2 by (simp_all add: is_state_substituteBytes is_state_shiftRows)
  obtain d4 where d4:
    "pushDetail t d3 NUMBER_OF_ROUNDS ''Start of Final Round'' s2 None = Inr d4"
    using pushDetail_ok_None [OF s2] by blast
  obtain d5 where d5: "pushDetail t d4 NUMBER_OF_ROUNDS ''After SubBytes'' ?s3 None = Inr d5"
    using pushDetail_ok_None [OF st(1)] by blast
  obtain d6 where d6: "pushDetail t d5 NUMBER_OF_ROUNDS ''After ShiftRows'' ?s4 None = Inr d6"
    using pushDetail_ok_None [OF st(2)] by blast
  obtain d7 where d7: "pushDetail t d6 NUMBER_OF_ROUNDS ''After AddRoundKey (Final)'' ?s5
      (Some (rks ! NUMBER_OF_ROUNDS)) = Inr d7"
    using pushDetail_ok_Some [OF is_state_addRoundKey rk14] by blast
  have "encryptBlock b rks t =
      Inr \<lparr>encryptedBlock = stateMatrixToBytes ?s5, encryptRoundDetails = d7\<rparr>"
    unfolding encryptBlock_def Let_def
    by (simp only: d1 d2 r d4 d5 d6 d7 bind_err_Inr prod.case)
  then show ?thesis by blast
qed

lemma decryptBlock_ok:
  assumes rks: "\<And>i. i < 15 \<Longrightarrow> is_state (rks ! i)" and b: "is_block b"
  shows "\<exists>res. decryptBlock b rks t = Inr res"
proof -
  let ?s0 = "bytesToStateMatrix b"
  let ?s1 = "addRoundKey ?s0 (rks ! NUMBER_OF_ROUNDS)"
  have s0: "is_state ?s0" using b by (rule is_state_bytesToStateMatrix)
  have rk0: "is_state (rks ! 0)" and rk14: "is_state (rks ! NUMBER_OF_ROUNDS)"
    by (simp_all add: rks NUMBER_OF_ROUNDS_def)
  obtain d1 where d1:
    "pushDetail t [] NUMBER_OF_ROUNDS ''Initial State (Cipher)'' ?s0 None = Inr d1"
    using pushDetail_ok_None [OF s0] by blast
  obtain d2 where d2: "pushDetail t d1 NUMBER_OF_ROUNDS ''After AddRoundKey'' ?s1
      (Some (rks ! NUMBER_OF_ROUNDS)) = Inr d2"
    using pushDetail_ok_Some [OF is_state_addRoundKey rk14] by blast
  have "NUMBER_OF_ROUNDS - 1 < 15" by (simp add: NUMBER_OF_ROUNDS_def)
  then obtain s2 d3
    where r: "decryptRounds rks t (NUMBER_OF_ROUNDS - 1) ?s1 d2 = Inr (s2, d3)"
      and s2: "is_state s2"
    using decryptRounds_ok [OF rks is_state_addRoundKey] by blast
  let ?s3 = "inverseShiftRows s2"
  let ?s4 = "inverseSubstituteBytes ?s3"
  let ?s5 = "addRoundKey ?s4 (rks ! 0)"
  have st: "is_state ?s3" "is_state ?s4"
    using s2 by (simp_all add: is_state_inverseSubstituteBytes is_state_inverseShiftRows)
  obtain d4 where d4: "pushDetail t d3 0 ''Start of Final Round'' s2 None = Inr d4"
    using pushDetail_ok_None [OF s2] by blast
  obtain d5 where d5: "pushDetail t d4 0 ''After InverseShiftRows'' ?s3 None = Inr d5"
    using pushDetail_ok_None [OF st(1)] by blast
  obtain d6 where d6: "pushDetail t d5 0 ''After InverseSubBytes'' ?s4 None = Inr d6"
    using pushDetail_ok_None [OF st(2)] by blast
  obtain d7 where d7:
    "pushDetail t d6 0 ''After AddRoundKey (Final)'' ?s5 (Some (rks ! 0)) = Inr d7"
    using pushDetail_ok_Some [OF is_state_addRoundKey rk0] by blast
  have "decryptBlock b rks t =
      Inr \<lparr>decryptedBlock = stateMatrixToBytes ?s5, decryptRoundDetails = d7\<rparr>"
    unfolding decryptBlock_def Let_def
    by (simp only: d1 d2 r d4 d5 d6 d7 bind_err_Inr prod.case)
  then show ?thesis by blast
qed

lemma expandKey_nth_state:
  assumes "length key = 32" "i < 15"
  shows "is_state (expandKey (bytes_of key) ! i)"
  using expandKey_states [OF assms(1)] assms(2) by (simp add: length_expandKey)

lemma is_block_first:
  assumes "16 \<le> length xs" "None \<notin> set xs"
  shows "is_block (slice xs 0 16)"
  using assms by (auto simp add: slice_def is_block_def dest: in_set_takeD)

lemma encryptText_tracking:
  assumes key: "length key = 32"
  shows "\<exists>e e'. encryptText (bytes_of bs) (bytes_of key) True = Inr e \<and>
    encryptText (bytes_of bs) (bytes_of key) False = Inr e' \<and> cipherBytes e = cipherBytes e'"
proof -
  let ?rks = "expandKey (bytes_of key)"
  let ?padded = "padData (bytes_of bs)"
  obtain strs where strs: "formatRoundKeys ?rks = Inr strs"
    using formatRoundKeys_ok [OF expandKey_states [OF key]] by blast
  have "16 \<le> length ?padded" "None \<notin> set ?padded"
    unfolding padData_eq by (auto simp add: bytes_of_def)
  then have "is_block (slice ?padded 0 16)" by (rule is_block_first)
  then obtain res where res: "encryptBlock (slice ?padded 0 16) ?rks True = Inr res"
    using encryptBlock_ok [OF expandKey_nth_state [OF key]] by blast
  obtain c p where cp: "encryptTracked ?padded ?rks = (c, p)"
    by (cases "encryptTracked ?padded ?rks") blast
  then have c: "c = concat (map (encBlock ?rks) (blocks16 ?padded))"
    using encryptTracked_fst [of ?padded ?rks] by simp
  show ?thesis
    by (simp add: encryptText_untracked [OF strs]) (simp add: encryptText_def cp res strs c)
qed

lemma decryptText_tracking:
  assumes key: "length key = 32" and len: "16 \<le> length cs"
  shows "map_sum id plainBytes (decryptText (bytes_of cs) (bytes_of key) True) =
         map_sum id plainBytes (decryptText (bytes_of cs) (bytes_of key) False)"
proof -
  let ?rks = "expandKey (bytes_of key)"
  obtain strs where strs: "formatRoundKeys ?rks = Inr strs"
    using formatRoundKeys_ok [OF expandKey_states [OF key]] by blast
  have "16 \<le> length (bytes_of cs)" "None \<notin> set (bytes_of cs)"
    using len by (auto simp add: bytes_of_def)
  then have "is_block (slice (bytes_of cs) 0 16)" by (rule is_block_first)
  then obtain res where res: "decryptBlock (slice (bytes_of cs) 0 16) ?rks True = Inr res"
    using decryptBlock_ok [OF expandKey_nth_state [OF key]] by blast
  obtain c p where cp: "decryptTracked (bytes_of cs) ?rks = (c, p)"
    by (cases "decryptTracked (bytes_of cs) ?rks") blast
  then have c: "c = concat (map (decBlock ?rks) (blocks16 (bytes_of cs)))"
    using decryptTracked_fst [of "bytes_of cs" ?rks] by simp
  show ?thesis
    unfolding decryptText_untracked [OF strs]
    by (cases "unpadData (concat (map (decBlock ?rks) (blocks16 (bytes_of cs))))")
      (simp_all add: decryptText_def cp res strs c)
qed

section \<open>A key of the wrong length\<close>

text \<open>C7 as stated fails: a key of 33 bytes is not rejected, it is truncated, and
  \<open>encryptText\<close> returns a result for it.\<close>

theorem key_length_counterexample:
  "length (bytes_of (replicate 33 0)) \<noteq> 32 \<and>
   length (expandKey (bytes_of (replicate 33 0))) = 15 \<and>
   expandKey (bytes_of (replicate 33 0)) = expandKey (bytes_of (replicate 32 0)) \<and>
   \<not> isl (encryptText [] (bytes_of (replicate 33 0)) False)"
proof -
  obtain e where "encryptText (bytes_of []) (bytes_of (replicate 32 0)) False = Inr e"
    using encryptText_tracking [of "replicate 32 0" "[]"] by auto
  moreover have "encryptText [] (bytes_of (replicate 33 0)) False =
      encryptText [] (take 32 (bytes_of (replicate 33 0))) False"
    by (simp add: encryptText_def expandKey_take)
  ultimately have enc: "\<not> isl (encryptText [] (bytes_of (replicate 33 0)) False)"
    by (simp add: bytes_of_def)
  have "take 32 (bytes_of (replicate 33 (0 :: byte))) = bytes_of (replicate 32 0)"
    by (simp add: bytes_of_def)
  with expandKey_take [of "bytes_of (replicate 33 0)"] show ?thesis
    using enc by (simp add: length_expandKey)
qed

end
